theory Spec2Isabelle
  imports Main "HOL-Library.Word"
begin

section \<open>The Staker contract: data model\<close>

text \<open>
  Shallow embedding of \<^verbatim>\<open>packages/core/contracts/oracle/implementation/Staker.sol\<close>
  (\<^verbatim>\<open>pragma solidity ^0.8.0\<close>). A \<^verbatim>\<open>uint256\<close> is a 256-bit word and an
  \<^verbatim>\<open>address\<close> a 160-bit word. Solidity 0.8 checks every \<^verbatim>\<open>+\<close>, \<^verbatim>\<open>-\<close>,
  \<^verbatim>\<open>*\<close> and \<^verbatim>\<open>/\<close>: an overflow, an underflow or a zero divisor aborts the
  whole call. Every call therefore returns \<open>error + result\<close>, and an \<open>Inl\<close> means
  that the transaction was reverted and the storage is what it was before the call.
\<close>

type_synonym uint256 = "256 word"
type_synonym address = "160 word"

datatype error =
    ArithmeticPanic        \<comment> \<open>Panic(0x11): checked arithmetic overflowed or underflowed\<close>
  | DivisionByZeroPanic    \<comment> \<open>Panic(0x12): division by zero\<close>
  | Revert string          \<comment> \<open>a failed \<^verbatim>\<open>require\<close>, with its message\<close>
  | TokenCallReverted      \<comment> \<open>the external voting token rejected a transfer\<close>

text \<open>The calls the contract makes on the external \<^verbatim>\<open>votingToken\<close>, in the order made.\<close>

datatype tokenCall =
    TransferFrom address uint256   \<comment> \<open>\<^verbatim>\<open>transferFrom(from, address(this), amount)\<close>\<close>
  | Transfer address uint256       \<comment> \<open>\<^verbatim>\<open>transfer(to, amount)\<close>\<close>
  | Mint address uint256           \<comment> \<open>\<^verbatim>\<open>mint(to, amount)\<close>\<close>

record VoterStake =
  activeStake :: uint256
  pendingUnstake :: uint256
  pendingStake :: uint256
  rewardsPaidPerToken :: uint256
  outstandingRewards :: uint256
  unstakeRequestTime :: uint256
  lastRequestIndexConsidered :: uint256
  delegate :: address

text \<open>
  The storage of the contract. A Solidity \<^verbatim>\<open>mapping\<close> is total: every key holds the
  all-zero value until it is written. \<open>owner\<close> is the variable of OpenZeppelin's \<^verbatim>\<open>Ownable\<close>.
\<close>

record Staker =
  emissionRate :: uint256
  cumulativeActiveStake :: uint256
  cumulativePendingStake :: uint256
  rewardPerTokenStored :: uint256
  lastUpdateTime :: uint256
  unstakeCoolDown :: uint256
  voterStakes :: "address \<Rightarrow> VoterStake"
  delegateToStaker :: "address \<Rightarrow> address"
  owner :: address

text \<open>
  What a call reads from outside the contract's storage. \<^verbatim>\<open>getCurrentTime()\<close> comes
  from \<^verbatim>\<open>Testable\<close>; \<^verbatim>\<open>inActiveReveal()\<close> and \<^verbatim>\<open>getStartingIndexForStaker()\<close>
  are \<^verbatim>\<open>virtual\<close> hooks that a derived voting contract overrides (in \<^verbatim>\<open>Staker\<close>
  itself they return \<^verbatim>\<open>false\<close> and \<^verbatim>\<open>0\<close>), so their values are parameters of the
  call; within one transaction the clock and the hooks give the same answer each time they
  are asked. \<open>tokenAccepts\<close> says which calls the external voting token carries out; a
  call it does not carry out reverts the transaction.
\<close>

record Env =
  msg_sender :: address
  getCurrentTime :: uint256
  inActiveReveal :: bool
  getStartingIndexForStaker :: uint256
  tokenAccepts :: "tokenCall \<Rightarrow> bool"

section \<open>Checked arithmetic and sequencing\<close>

definition bindR :: "error + 'a \<Rightarrow> ('a \<Rightarrow> error + 'b) \<Rightarrow> error + 'b" where
  "bindR m f = (case m of Inl err \<Rightarrow> Inl err | Inr x \<Rightarrow> f x)"

definition require :: "bool \<Rightarrow> string \<Rightarrow> error + unit" where
  "require c msg = (if c then Inr () else Inl (Revert msg))"

definition add256 :: "uint256 \<Rightarrow> uint256 \<Rightarrow> error + uint256" where
  "add256 a b = (if unat a + unat b < 2 ^ 256 then Inr (a + b) else Inl ArithmeticPanic)"

definition sub256 :: "uint256 \<Rightarrow> uint256 \<Rightarrow> error + uint256" where
  "sub256 a b = (if b \<le> a then Inr (a - b) else Inl ArithmeticPanic)"

definition mul256 :: "uint256 \<Rightarrow> uint256 \<Rightarrow> error + uint256" where
  "mul256 a b = (if unat a * unat b < 2 ^ 256 then Inr (a * b) else Inl ArithmeticPanic)"

definition div256 :: "uint256 \<Rightarrow> uint256 \<Rightarrow> error + uint256" where
  "div256 a b = (if b = 0 then Inl DivisionByZeroPanic else Inr (a div b))"

definition tokenDo :: "Env \<Rightarrow> tokenCall \<Rightarrow> error + unit" where
  "tokenDo e c = (if tokenAccepts e c then Inr () else Inl TokenCallReverted)"

section \<open>Views\<close>

definition getCumulativeStake :: "Staker \<Rightarrow> error + uint256" where
  "getCumulativeStake s = add256 (cumulativeActiveStake s) (cumulativePendingStake s)"

definition getVoterStake :: "Staker \<Rightarrow> address \<Rightarrow> error + uint256" where
  "getVoterStake s voterAddress =
     add256 (activeStake (voterStakes s voterAddress)) (pendingStake (voterStakes s voterAddress))"

text \<open>
  \<^verbatim>\<open>if (getCumulativeStake() == 0) return rewardPerTokenStored;\<close>
  \<^verbatim>\<open>return rewardPerTokenStored + ((getCurrentTime() - lastUpdateTime) * emissionRate * 1e18) / getCumulativeStake();\<close>
\<close>

definition rewardPerToken :: "Staker \<Rightarrow> Env \<Rightarrow> error + uint256" where
  "rewardPerToken s e =
     bindR (getCumulativeStake s) (\<lambda>total.
       if total = 0 then Inr (rewardPerTokenStored s)
       else
         bindR (sub256 (getCurrentTime e) (lastUpdateTime s)) (\<lambda>elapsed.
         bindR (mul256 elapsed (emissionRate s)) (\<lambda>emitted.
         bindR (mul256 emitted 1000000000000000000) (\<lambda>scaled.
         bindR (getCumulativeStake s) (\<lambda>divisor.
         bindR (div256 scaled divisor) (\<lambda>increase.
         add256 (rewardPerTokenStored s) increase))))))"

text \<open>
  The view \<^verbatim>\<open>outstandingRewards(address)\<close>; the struct field of the same name keeps
  the name \<open>outstandingRewards\<close>.
  \<^verbatim>\<open>((getVoterStake(voterAddress) * (rewardPerToken() - voterStake.rewardsPaidPerToken)) / 1e18) + voterStake.outstandingRewards\<close>
\<close>

definition outstandingRewardsOf :: "Staker \<Rightarrow> Env \<Rightarrow> address \<Rightarrow> error + uint256" where
  "outstandingRewardsOf s e voterAddress =
     bindR (getVoterStake s voterAddress) (\<lambda>staked.
     bindR (rewardPerToken s e) (\<lambda>rpt.
     bindR (sub256 rpt (rewardsPaidPerToken (voterStakes s voterAddress))) (\<lambda>unpaid.
     bindR (mul256 staked unpaid) (\<lambda>product.
     bindR (div256 product 1000000000000000000) (\<lambda>earned.
     add256 earned (outstandingRewards (voterStakes s voterAddress)))))))"

section \<open>Internal settlement routines\<close>

text \<open>
  \<^verbatim>\<open>_updateReward\<close>: the accumulator and the time stamp are stored first; the voter's
  rewards are then computed by the view, which reads the storage just written.
\<close>

definition updateReward :: "Staker \<Rightarrow> Env \<Rightarrow> address \<Rightarrow> error + Staker" where
  "updateReward s e voterAddress =
     bindR (rewardPerToken s e) (\<lambda>newRewardPerToken.
       let s1 = s\<lparr>rewardPerTokenStored := newRewardPerToken, lastUpdateTime := getCurrentTime e\<rparr>
       in if voterAddress \<noteq> 0 then
            bindR (outstandingRewardsOf s1 e voterAddress) (\<lambda>owed.
              Inr (s1\<lparr>voterStakes := (voterStakes s1)
                     (voterAddress := (voterStakes s1 voterAddress)
                        \<lparr>outstandingRewards := owed, rewardsPaidPerToken := newRewardPerToken\<rparr>)\<rparr>))
          else Inr s1)"

text \<open>\<^verbatim>\<open>_updateActiveStake\<close>: outside the reveal phase the voter's pending stake becomes active.\<close>

definition updateActiveStake :: "Staker \<Rightarrow> Env \<Rightarrow> address \<Rightarrow> error + Staker" where
  "updateActiveStake s e voterAddress =
     (if inActiveReveal e then Inr s
      else
        bindR (add256 (cumulativeActiveStake s) (pendingStake (voterStakes s voterAddress))) (\<lambda>cumActive.
        bindR (sub256 (cumulativePendingStake s) (pendingStake (voterStakes s voterAddress))) (\<lambda>cumPending.
        bindR (add256 (activeStake (voterStakes s voterAddress)) (pendingStake (voterStakes s voterAddress))) (\<lambda>active.
          Inr (s\<lparr>cumulativeActiveStake := cumActive, cumulativePendingStake := cumPending,
                 voterStakes := (voterStakes s)
                   (voterAddress := (voterStakes s voterAddress)
                      \<lparr>activeStake := active, pendingStake := 0\<rparr>)\<rparr>)))))"

definition updateTrackers :: "Staker \<Rightarrow> Env \<Rightarrow> address \<Rightarrow> error + Staker" where
  "updateTrackers s e voterAddress =
     bindR (updateReward s e voterAddress) (\<lambda>s1. updateActiveStake s1 e voterAddress)"

section \<open>The public operations\<close>

text \<open>
  Each operation returns the new storage and the list of calls it made on the voting token;
  \<open>withdrawRewards\<close> also returns its \<^verbatim>\<open>uint256\<close> result. Events are not modelled.
\<close>

definition stake :: "Staker \<Rightarrow> Env \<Rightarrow> uint256 \<Rightarrow> error + (Staker \<times> tokenCall list)" where
  "stake s e amount =
     bindR (getVoterStake s (msg_sender e)) (\<lambda>staked.
     bindR (add256 staked (pendingStake (voterStakes s (msg_sender e)))) (\<lambda>balance.
       let s0 = (if balance = 0
                 then s\<lparr>voterStakes := (voterStakes s)
                         (msg_sender e := (voterStakes s (msg_sender e))
                            \<lparr>lastRequestIndexConsidered := getStartingIndexForStaker e\<rparr>)\<rparr>
                 else s)
       in
       bindR (updateTrackers s0 e (msg_sender e)) (\<lambda>s1.
       bindR (if inActiveReveal e then
                bindR (add256 (pendingStake (voterStakes s1 (msg_sender e))) amount) (\<lambda>pending.
                bindR (add256 (cumulativePendingStake s1) amount) (\<lambda>cumPending.
                  Inr (s1\<lparr>cumulativePendingStake := cumPending,
                         voterStakes := (voterStakes s1)
                           (msg_sender e := (voterStakes s1 (msg_sender e))\<lparr>pendingStake := pending\<rparr>)\<rparr>)))
              else
                bindR (add256 (activeStake (voterStakes s1 (msg_sender e))) amount) (\<lambda>active.
                bindR (add256 (cumulativeActiveStake s1) amount) (\<lambda>cumActive.
                  Inr (s1\<lparr>cumulativeActiveStake := cumActive,
                         voterStakes := (voterStakes s1)
                           (msg_sender e := (voterStakes s1 (msg_sender e))\<lparr>activeStake := active\<rparr>)\<rparr>))))
         (\<lambda>s2.
       bindR (tokenDo e (TransferFrom (msg_sender e) amount)) (\<lambda>_.
         Inr (s2, [TransferFrom (msg_sender e) amount]))))))"

definition requestUnstake :: "Staker \<Rightarrow> Env \<Rightarrow> uint256 \<Rightarrow> error + (Staker \<times> tokenCall list)" where
  "requestUnstake s e amount =
     bindR (require (\<not> inActiveReveal e) ''In an active reveal phase'') (\<lambda>_.
     bindR (updateTrackers s e (msg_sender e)) (\<lambda>s1.
     bindR (require (amount \<le> activeStake (voterStakes s1 (msg_sender e))) ''Bad request amount'') (\<lambda>_.
     bindR (require (pendingUnstake (voterStakes s1 (msg_sender e)) = 0) ''Have previous request unstake'') (\<lambda>_.
     bindR (sub256 (cumulativeActiveStake s1) amount) (\<lambda>cumActive.
     bindR (sub256 (activeStake (voterStakes s1 (msg_sender e))) amount) (\<lambda>active.
       Inr (s1\<lparr>cumulativeActiveStake := cumActive,
              voterStakes := (voterStakes s1)
                (msg_sender e := (voterStakes s1 (msg_sender e))
                   \<lparr>activeStake := active, pendingUnstake := amount,
                    unstakeRequestTime := getCurrentTime e\<rparr>)\<rparr>, [])))))))"

text \<open>
  \<^verbatim>\<open>executeUnstake\<close>. The \<^verbatim>\<open>&&\<close> of the \<^verbatim>\<open>require\<close> short-circuits, so the checked
  sum \<^verbatim>\<open>unstakeRequestTime + unstakeCoolDown\<close> is only computed when the request time is
  not zero.
\<close>

definition executeUnstake :: "Staker \<Rightarrow> Env \<Rightarrow> error + (Staker \<times> tokenCall list)" where
  "executeUnstake s e =
     bindR (updateTrackers s e (msg_sender e)) (\<lambda>s1.
     bindR (if unstakeRequestTime (voterStakes s1 (msg_sender e)) \<noteq> 0 then
              bindR (add256 (unstakeRequestTime (voterStakes s1 (msg_sender e))) (unstakeCoolDown s1))
                (\<lambda>release. Inr (release \<le> getCurrentTime e))
            else Inr False) (\<lambda>ready.
     bindR (require ready ''Unstake time not passed'') (\<lambda>_.
       let tokensToSend = pendingUnstake (voterStakes s1 (msg_sender e)) in
       if tokensToSend > 0 then
         bindR (tokenDo e (Transfer (msg_sender e) tokensToSend)) (\<lambda>_.
           Inr (s1\<lparr>voterStakes := (voterStakes s1)
                    (msg_sender e := (voterStakes s1 (msg_sender e))
                       \<lparr>pendingUnstake := 0, unstakeRequestTime := 0\<rparr>)\<rparr>,
                [Transfer (msg_sender e) tokensToSend]))
       else Inr (s1, []))))"

definition withdrawRewards :: "Staker \<Rightarrow> Env \<Rightarrow> error + (uint256 \<times> Staker \<times> tokenCall list)" where
  "withdrawRewards s e =
     bindR (updateTrackers s e (msg_sender e)) (\<lambda>s1.
       let tokensToMint = outstandingRewards (voterStakes s1 (msg_sender e)) in
       if tokensToMint > 0 then
         bindR (require (tokenAccepts e (Mint (msg_sender e) tokensToMint)) ''Voting token issuance failed'') (\<lambda>_.
           Inr (tokensToMint,
                s1\<lparr>voterStakes := (voterStakes s1)
                    (msg_sender e := (voterStakes s1 (msg_sender e))\<lparr>outstandingRewards := 0\<rparr>)\<rparr>,
                [Mint (msg_sender e) tokensToMint]))
       else Inr (tokensToMint, s1, []))"

definition exit :: "Staker \<Rightarrow> Env \<Rightarrow> error + (Staker \<times> tokenCall list)" where
  "exit s e =
     bindR (executeUnstake s e) (\<lambda>(s1, calls1).
     bindR (withdrawRewards s1 e) (\<lambda>(_, s2, calls2).
       Inr (s2, calls1 @ calls2)))"

text \<open>\<^verbatim>\<open>onlyOwner\<close> is the modifier of OpenZeppelin's \<^verbatim>\<open>Ownable\<close>.\<close>

definition onlyOwner :: "Staker \<Rightarrow> Env \<Rightarrow> error + unit" where
  "onlyOwner s e = require (owner s = msg_sender e) ''Ownable: caller is not the owner''"

definition setEmissionRate :: "Staker \<Rightarrow> Env \<Rightarrow> uint256 \<Rightarrow> error + (Staker \<times> tokenCall list)" where
  "setEmissionRate s e newRate =
     bindR (onlyOwner s e) (\<lambda>_.
     bindR (updateReward s e 0) (\<lambda>s1.
       Inr (s1\<lparr>emissionRate := newRate\<rparr>, [])))"

definition setUnstakeCoolDown :: "Staker \<Rightarrow> Env \<Rightarrow> uint256 \<Rightarrow> error + (Staker \<times> tokenCall list)" where
  "setUnstakeCoolDown s e newCoolDown =
     bindR (onlyOwner s e) (\<lambda>_. Inr (s\<lparr>unstakeCoolDown := newCoolDown\<rparr>, []))"

section \<open>Transactions and runs\<close>

text \<open>The value every entry of \<^verbatim>\<open>voterStakes\<close> holds before it is written.\<close>

definition emptyVoterStake :: VoterStake where
  "emptyVoterStake = \<lparr>activeStake = 0, pendingUnstake = 0, pendingStake = 0,
     rewardsPaidPerToken = 0, outstandingRewards = 0, unstakeRequestTime = 0,
     lastRequestIndexConsidered = 0, delegate = 0\<rparr>"

text \<open>The storage right after the constructor ran, called by \<open>deployer\<close>.\<close>

definition constructor :: "address \<Rightarrow> uint256 \<Rightarrow> uint256 \<Rightarrow> Staker" where
  "constructor deployer rate coolDown =
     \<lparr>emissionRate = rate, cumulativeActiveStake = 0, cumulativePendingStake = 0,
      rewardPerTokenStored = 0, lastUpdateTime = 0, unstakeCoolDown = coolDown,
      voterStakes = (\<lambda>_. emptyVoterStake), delegateToStaker = (\<lambda>_. 0), owner = deployer\<rparr>"

text \<open>
  The state-changing functions of the contract, as the entry points of a transaction. The
  functions \<^verbatim>\<open>Ownable\<close> adds (\<^verbatim>\<open>transferOwnership\<close>, \<^verbatim>\<open>renounceOwnership\<close>) write
  \<open>owner\<close> only and are left out.
\<close>

datatype operation =
    Stake uint256
  | RequestUnstake uint256
  | ExecuteUnstake
  | WithdrawRewards
  | Exit
  | SetEmissionRate uint256
  | SetUnstakeCoolDown uint256

fun call :: "Staker \<Rightarrow> Env \<Rightarrow> operation \<Rightarrow> error + (Staker \<times> tokenCall list)" where
  "call s e (Stake amount) = stake s e amount"
| "call s e (RequestUnstake amount) = requestUnstake s e amount"
| "call s e ExecuteUnstake = executeUnstake s e"
| "call s e WithdrawRewards = bindR (withdrawRewards s e) (\<lambda>(_, s1, calls). Inr (s1, calls))"
| "call s e Exit = exit s e"
| "call s e (SetEmissionRate newRate) = setEmissionRate s e newRate"
| "call s e (SetUnstakeCoolDown newCoolDown) = setUnstakeCoolDown s e newCoolDown"

text \<open>The storage after a transaction: a reverted call leaves it as it was.\<close>

definition transact :: "Staker \<Rightarrow> Env \<times> operation \<Rightarrow> Staker" where
  "transact s tx = (case call s (fst tx) (snd tx) of Inl _ \<Rightarrow> s | Inr (s1, _) \<Rightarrow> s1)"

fun run :: "Staker \<Rightarrow> (Env \<times> operation) list \<Rightarrow> Staker" where
  "run s [] = s"
| "run s (tx # txs) = run (transact s tx) txs"

section \<open>The ledger invariant\<close>

text \<open>
  The sums of the voters' active and pending stakes, taken over every address, as natural
  numbers (so the sums themselves cannot wrap around).
\<close>

definition sumActiveStake :: "Staker \<Rightarrow> nat" where
  "sumActiveStake s = (\<Sum>v\<in>UNIV. unat (activeStake (voterStakes s v)))"

definition sumPendingStake :: "Staker \<Rightarrow> nat" where
  "sumPendingStake s = (\<Sum>v\<in>UNIV. unat (pendingStake (voterStakes s v)))"

definition ledgerBalanced :: "Staker \<Rightarrow> bool" where
  "ledgerBalanced s \<longleftrightarrow>
     unat (cumulativeActiveStake s) = sumActiveStake s \<and>
     unat (cumulativePendingStake s) = sumPendingStake s"

text \<open>A storage on which settlement and promotion for \<open>v\<close>, at the time of \<open>e\<close>, change nothing.\<close>

definition settled :: "Staker \<Rightarrow> Env \<Rightarrow> address \<Rightarrow> bool" where
  "settled s e v \<longleftrightarrow>
     lastUpdateTime s = getCurrentTime e \<and>
     unat (cumulativeActiveStake s) + unat (cumulativePendingStake s) < 2 ^ 256 \<and>
     (v = 0 \<or> (rewardsPaidPerToken (voterStakes s v) = rewardPerTokenStored s \<and>
        unat (activeStake (voterStakes s v)) + unat (pendingStake (voterStakes s v)) < 2 ^ 256)) \<and>
     (inActiveReveal e \<or> pendingStake (voterStakes s v) = 0)"

text \<open>
  For stating what a voter's call does to the stakes: the five operations that settle and
  promote for their caller (the two owner-only setters do not), the amount an operation
  itself stakes or asks to unstake, and the relation between the storage before and after a
  call that promoted the pending stake of \<open>v\<close>.
\<close>

fun voterOperation :: "operation \<Rightarrow> bool" where
  "voterOperation (SetEmissionRate _) = False"
| "voterOperation (SetUnstakeCoolDown _) = False"
| "voterOperation _ = True"

fun stakedBy :: "operation \<Rightarrow> nat" where
  "stakedBy (Stake amount) = unat amount"
| "stakedBy _ = 0"

fun unstakedBy :: "operation \<Rightarrow> nat" where
  "unstakedBy (RequestUnstake amount) = unat amount"
| "unstakedBy _ = 0"

definition promotedBy :: "Staker \<Rightarrow> Staker \<Rightarrow> address \<Rightarrow> nat \<Rightarrow> nat \<Rightarrow> bool" where
  "promotedBy t t' v staked unstaked \<longleftrightarrow>
     pendingStake (voterStakes t' v) = 0 \<and>
     unat (activeStake (voterStakes t' v)) + unstaked =
       unat (activeStake (voterStakes t v)) + unat (pendingStake (voterStakes t v)) + staked \<and>
     unat (cumulativeActiveStake t') + unstaked =
       unat (cumulativeActiveStake t) + unat (pendingStake (voterStakes t v)) + staked \<and>
     unat (cumulativePendingStake t') + unat (pendingStake (voterStakes t v)) =
       unat (cumulativePendingStake t) \<and>
     (\<forall>u. u = v \<or> voterStakes t' u = voterStakes t u)"

section \<open>Example ledgers\<close>

text \<open>
  Concrete calls and storages on which the theorems below are instantiated. \<open>envAt\<close> is
  a call by \<open>sender\<close> at a given time, with a voting token that carries out every call;
  \<open>oneStaker\<close> is the storage after address 1 deployed the contract and address 2 staked
  \<open>amount\<close> at time 1000, outside the reveal phase.
\<close>

definition envAt :: "address \<Rightarrow> uint256 \<Rightarrow> bool \<Rightarrow> Env" where
  "envAt sender time reveal =
     \<lparr>msg_sender = sender, getCurrentTime = time, inActiveReveal = reveal,
      getStartingIndexForStaker = 0, tokenAccepts = (\<lambda>_. True)\<rparr>"

definition oneStaker :: "uint256 \<Rightarrow> uint256 \<Rightarrow> uint256 \<Rightarrow> Staker" where
  "oneStaker rate coolDown amount =
     run (constructor 1 rate coolDown) [(envAt 2 1000 False, Stake amount)]"

text \<open>
  \<open>halfRequest\<close>: three seconds later the voter asked to unstake 50 of the 100;
  \<open>zeroRequest\<close>: the voter asked to unstake 0 instead.
\<close>

definition halfRequest :: Staker where
  "halfRequest = transact (oneStaker 5 10 100) (envAt 2 1003 False, RequestUnstake 50)"

definition zeroRequest :: Staker where
  "zeroRequest = transact (oneStaker 5 10 100) (envAt 2 1003 False, RequestUnstake 0)"

text \<open>
  \<open>twoPending\<close>: addresses 2 and 3 staked 100 and 70 during the reveal phase;
  \<open>ownerPending\<close>: the owner of the contract, address 2, staked 100 during the reveal phase.
\<close>

definition twoPending :: Staker where
  "twoPending = run (constructor 1 5 10)
     [(envAt 2 1000 True, Stake 100), (envAt 3 1000 True, Stake 70)]"

definition ownerPending :: Staker where
  "ownerPending = transact (constructor 2 5 10) (envAt 2 1000 True, Stake 100)"

section \<open>Basic facts about the checked operations\<close>

lemma bindR_Inr [simp]: "bindR (Inr x) f = f x"
  by (simp add: bindR_def)

lemma bindR_Inl [simp]: "bindR (Inl err) f = Inl err"
  by (simp add: bindR_def)

lemma bindR_eq_Inr: "bindR m f = Inr y \<longleftrightarrow> (\<exists>x. m = Inr x \<and> f x = Inr y)"
  by (cases m) simp_all

lemma require_eq_Inr: "require c msg = Inr u \<longleftrightarrow> c"
  by (simp add: require_def)

lemma add256_eq_Inr: "add256 a b = Inr c \<longleftrightarrow> unat a + unat b < 2 ^ 256 \<and> c = a + b"
  by (auto simp: add256_def)

lemma unat_add256: "add256 a b = Inr c \<Longrightarrow> unat c = unat a + unat b"
  using unat_add_lem [of a b] by (auto simp: add256_def split: if_splits)

lemma unat_sub256: "sub256 a b = Inr c \<Longrightarrow> unat c + unat b = unat a"
  by (auto simp: sub256_def unat_sub word_le_nat_alt split: if_splits)

lemma unat_mul256: "mul256 a b = Inr c \<Longrightarrow> unat c = unat a * unat b"
  using unat_mult_lem [of a b] by (auto simp: mul256_def split: if_splits)

lemma unat_div256: "div256 a b = Inr c \<Longrightarrow> b \<noteq> 0 \<and> unat c = unat a div unat b"
  by (auto simp: div256_def unat_div split: if_splits)

lemma unat_lt_uint256 [simp]:
  "unat (a :: uint256) < 115792089237316195423570985008687907853269984665640564039457584007913129639936"
  using unsigned_less [of a, where 'a = nat] by simp

text \<open>Writing one entry of a mapping changes a sum over all keys by that entry only.\<close>

lemma sum_fun_upd:
  fixes F :: "'b \<Rightarrow> nat" and m :: "'a::finite \<Rightarrow> 'b"
  shows "(\<Sum>v\<in>UNIV. F ((m(a := r)) v)) + F (m a) = (\<Sum>v\<in>UNIV. F (m v)) + F r"
proof -
  have rest: "(\<Sum>v\<in>UNIV - {a}. F ((m(a := r)) v)) = (\<Sum>v\<in>UNIV - {a}. F (m v))"
    by (rule sum.cong) auto
  have "(\<Sum>v\<in>UNIV. F ((m(a := r)) v)) = F r + (\<Sum>v\<in>UNIV - {a}. F ((m(a := r)) v))"
    using sum.remove [of UNIV a "\<lambda>v. F ((m(a := r)) v)"] by simp
  moreover have "(\<Sum>v\<in>UNIV. F (m v)) = F (m a) + (\<Sum>v\<in>UNIV - {a}. F (m v))"
    using sum.remove [of UNIV a "\<lambda>v. F (m v)"] by simp
  ultimately show ?thesis using rest by simp
qed

section \<open>What each routine does to the storage\<close>

lemma unat_plus:
  fixes a b :: uint256
  shows "unat a + unat b < 2 ^ 256 \<Longrightarrow> unat (a + b) = unat a + unat b"
  using unat_add_lem [of a b] by simp

lemma updateReward_globals:
  assumes "updateReward s e v = Inr s1"
  shows "emissionRate s1 = emissionRate s"
    and "cumulativeActiveStake s1 = cumulativeActiveStake s"
    and "cumulativePendingStake s1 = cumulativePendingStake s"
    and "unstakeCoolDown s1 = unstakeCoolDown s"
    and "owner s1 = owner s"
    and "lastUpdateTime s1 = getCurrentTime e"
    and "rewardPerToken s e = Inr (rewardPerTokenStored s1)"
  using assms
  by (auto simp: updateReward_def Let_def bindR_eq_Inr split: if_splits)

lemma updateReward_voters:
  assumes "updateReward s e v = Inr s1"
  shows "activeStake (voterStakes s1 u) = activeStake (voterStakes s u)"
    and "pendingStake (voterStakes s1 u) = pendingStake (voterStakes s u)"
    and "pendingUnstake (voterStakes s1 u) = pendingUnstake (voterStakes s u)"
    and "unstakeRequestTime (voterStakes s1 u) = unstakeRequestTime (voterStakes s u)"
    and "u \<noteq> v \<Longrightarrow> voterStakes s1 u = voterStakes s u"
  using assms
  by (auto simp: updateReward_def Let_def bindR_eq_Inr split: if_splits)

lemma updateReward_balanced:
  assumes "updateReward s e v = Inr s1" and "ledgerBalanced s"
  shows "ledgerBalanced s1"
  using assms(2) updateReward_globals(2,3) [OF assms(1)] updateReward_voters(1,2) [OF assms(1)]
  by (simp add: ledgerBalanced_def sumActiveStake_def sumPendingStake_def)

lemma updateActiveStake_reveal:
  "inActiveReveal e \<Longrightarrow> updateActiveStake s e v = Inr s"
  by (simp add: updateActiveStake_def)

lemma updateActiveStake_promote:
  assumes "updateActiveStake s e v = Inr s1" and "\<not> inActiveReveal e"
  shows "voterStakes s1 = (voterStakes s)(v := (voterStakes s v)
            \<lparr>activeStake := activeStake (voterStakes s v) + pendingStake (voterStakes s v),
             pendingStake := 0\<rparr>)"
    and "unat (cumulativeActiveStake s1) =
           unat (cumulativeActiveStake s) + unat (pendingStake (voterStakes s v))"
    and "unat (cumulativePendingStake s1) + unat (pendingStake (voterStakes s v)) =
           unat (cumulativePendingStake s)"
    and "unat (activeStake (voterStakes s v) + pendingStake (voterStakes s v)) =
           unat (activeStake (voterStakes s v)) + unat (pendingStake (voterStakes s v))"
  using assms
  by (auto simp: updateActiveStake_def bindR_eq_Inr add256_eq_Inr unat_plus dest: unat_sub256)

lemma updateActiveStake_globals:
  assumes "updateActiveStake s e v = Inr s1"
  shows "emissionRate s1 = emissionRate s"
    and "rewardPerTokenStored s1 = rewardPerTokenStored s"
    and "lastUpdateTime s1 = lastUpdateTime s"
    and "unstakeCoolDown s1 = unstakeCoolDown s"
    and "owner s1 = owner s"
  using assms
  by (auto simp: updateActiveStake_def bindR_eq_Inr split: if_splits)

lemma updateActiveStake_balanced:
  assumes "updateActiveStake s e v = Inr s1" and "ledgerBalanced s"
  shows "ledgerBalanced s1"
proof (cases "inActiveReveal e")
  case True
  with assms show ?thesis by (simp add: updateActiveStake_def)
next
  case False
  note p = updateActiveStake_promote [OF assms(1) False]
  have a: "sumActiveStake s1 + unat (activeStake (voterStakes s v)) =
      sumActiveStake s + (unat (activeStake (voterStakes s v)) + unat (pendingStake (voterStakes s v)))"
    using sum_fun_upd [of "\<lambda>r. unat (activeStake r)" "voterStakes s" v] p(4)
    by (simp add: sumActiveStake_def p(1))
  have b: "sumPendingStake s1 + unat (pendingStake (voterStakes s v)) = sumPendingStake s"
    using sum_fun_upd [of "\<lambda>r. unat (pendingStake r)" "voterStakes s" v]
    by (simp add: sumPendingStake_def p(1))
  show ?thesis using assms(2) a b p(2,3) by (simp add: ledgerBalanced_def)
qed

lemma updateTrackers_balanced:
  assumes "updateTrackers s e v = Inr s1" and "ledgerBalanced s"
  shows "ledgerBalanced s1"
  using assms
  by (auto simp: updateTrackers_def bindR_eq_Inr
      intro: updateActiveStake_balanced updateReward_balanced)

lemma balanced_step:
  assumes "ledgerBalanced s"
    and "voterStakes s' = (voterStakes s)(v := r)"
    and "unat (cumulativeActiveStake s') + unat (activeStake (voterStakes s v)) =
         unat (cumulativeActiveStake s) + unat (activeStake r)"
    and "unat (cumulativePendingStake s') + unat (pendingStake (voterStakes s v)) =
         unat (cumulativePendingStake s) + unat (pendingStake r)"
  shows "ledgerBalanced s'"
proof -
  have "sumActiveStake s' + unat (activeStake (voterStakes s v)) =
        sumActiveStake s + unat (activeStake r)"
    using sum_fun_upd [of "\<lambda>r. unat (activeStake r)" "voterStakes s" v r]
    by (simp add: sumActiveStake_def assms(2))
  moreover have "sumPendingStake s' + unat (pendingStake (voterStakes s v)) =
        sumPendingStake s + unat (pendingStake r)"
    using sum_fun_upd [of "\<lambda>r. unat (pendingStake r)" "voterStakes s" v r]
    by (simp add: sumPendingStake_def assms(2))
  ultimately show ?thesis using assms(1,3,4) by (simp add: ledgerBalanced_def)
qed

lemma stake_balanced:
  assumes "stake s e amount = Inr (s', calls)" and "ledgerBalanced s"
  shows "ledgerBalanced s'"
proof -
  define s0 where "s0 = (if activeStake (voterStakes s (msg_sender e)) + pendingStake (voterStakes s (msg_sender e))
        + pendingStake (voterStakes s (msg_sender e)) = 0
      then s\<lparr>voterStakes := (voterStakes s)
              (msg_sender e := (voterStakes s (msg_sender e))
                 \<lparr>lastRequestIndexConsidered := getStartingIndexForStaker e\<rparr>)\<rparr>
      else s)"
  have b0: "ledgerBalanced s0"
    unfolding s0_def using assms(2)
    by (auto intro: balanced_step [where s = s and v = "msg_sender e" and
          r = "(voterStakes s (msg_sender e))
                 \<lparr>lastRequestIndexConsidered := getStartingIndexForStaker e\<rparr>"])
  from assms(1) obtain s1 where
    t: "updateTrackers s0 e (msg_sender e) = Inr s1" and
    f: "(if inActiveReveal e then
           unat (pendingStake (voterStakes s1 (msg_sender e))) + unat amount < 2 ^ 256 \<and>
           unat (cumulativePendingStake s1) + unat amount < 2 ^ 256 \<and>
           s' = s1\<lparr>cumulativePendingStake := cumulativePendingStake s1 + amount,
                   voterStakes := (voterStakes s1)
                     (msg_sender e := (voterStakes s1 (msg_sender e))
                        \<lparr>pendingStake := pendingStake (voterStakes s1 (msg_sender e)) + amount\<rparr>)\<rparr>
         else
           unat (activeStake (voterStakes s1 (msg_sender e))) + unat amount < 2 ^ 256 \<and>
           unat (cumulativeActiveStake s1) + unat amount < 2 ^ 256 \<and>
           s' = s1\<lparr>cumulativeActiveStake := cumulativeActiveStake s1 + amount,
                   voterStakes := (voterStakes s1)
                     (msg_sender e := (voterStakes s1 (msg_sender e))
                        \<lparr>activeStake := activeStake (voterStakes s1 (msg_sender e)) + amount\<rparr>)\<rparr>)"
    unfolding stake_def s0_def getVoterStake_def
    by (auto simp: bindR_eq_Inr add256_eq_Inr Let_def split: if_splits)
  have b1: "ledgerBalanced s1" by (rule updateTrackers_balanced [OF t b0])
  show ?thesis
  proof (cases "inActiveReveal e")
    case True
    with f show ?thesis
      by (intro balanced_step [OF b1, where v = "msg_sender e" and
            r = "(voterStakes s1 (msg_sender e))
                  \<lparr>pendingStake := pendingStake (voterStakes s1 (msg_sender e)) + amount\<rparr>"])
         (simp_all add: unat_plus)
  next
    case False
    with f show ?thesis
      by (intro balanced_step [OF b1, where v = "msg_sender e" and
            r = "(voterStakes s1 (msg_sender e))
                  \<lparr>activeStake := activeStake (voterStakes s1 (msg_sender e)) + amount\<rparr>"])
         (simp_all add: unat_plus)
  qed
qed

lemma sub256_eq_Inr: "sub256 a b = Inr c \<longleftrightarrow> b \<le> a \<and> c = a - b"
  by (auto simp: sub256_def)

lemma unat_minus:
  fixes a b :: uint256
  shows "b \<le> a \<Longrightarrow> unat (a - b) + unat b = unat a"
  by (simp add: unat_sub word_le_nat_alt)

lemma requestUnstake_eq_Inr:
  "requestUnstake s e amount = Inr (s', calls) \<longleftrightarrow>
     \<not> inActiveReveal e \<and>
     (\<exists>s1. updateTrackers s e (msg_sender e) = Inr s1 \<and>
        amount \<le> activeStake (voterStakes s1 (msg_sender e)) \<and>
        pendingUnstake (voterStakes s1 (msg_sender e)) = 0 \<and>
        amount \<le> cumulativeActiveStake s1 \<and>
        s' = s1\<lparr>cumulativeActiveStake := cumulativeActiveStake s1 - amount,
                voterStakes := (voterStakes s1)
                  (msg_sender e := (voterStakes s1 (msg_sender e))
                     \<lparr>activeStake := activeStake (voterStakes s1 (msg_sender e)) - amount,
                      pendingUnstake := amount,
                      unstakeRequestTime := getCurrentTime e\<rparr>)\<rparr> \<and>
        calls = [])"
  unfolding requestUnstake_def
  by (auto simp: bindR_eq_Inr require_eq_Inr sub256_eq_Inr)

lemma requestUnstake_balanced:
  assumes "requestUnstake s e amount = Inr (s', calls)" and "ledgerBalanced s"
  shows "ledgerBalanced s'"
proof -
  from assms(1) obtain s1 where
    t: "updateTrackers s e (msg_sender e) = Inr s1" and
    le: "amount \<le> activeStake (voterStakes s1 (msg_sender e))" "amount \<le> cumulativeActiveStake s1" and
    s': "s' = s1\<lparr>cumulativeActiveStake := cumulativeActiveStake s1 - amount,
                voterStakes := (voterStakes s1)
                  (msg_sender e := (voterStakes s1 (msg_sender e))
                     \<lparr>activeStake := activeStake (voterStakes s1 (msg_sender e)) - amount,
                      pendingUnstake := amount,
                      unstakeRequestTime := getCurrentTime e\<rparr>)\<rparr>"
    by (auto simp: requestUnstake_eq_Inr)
  have b1: "ledgerBalanced s1" by (rule updateTrackers_balanced [OF t assms(2)])
  show ?thesis
    using unat_minus [OF le(1)] unat_minus [OF le(2)]
    by (intro balanced_step [OF b1, where v = "msg_sender e" and
          r = "(voterStakes s1 (msg_sender e))
                 \<lparr>activeStake := activeStake (voterStakes s1 (msg_sender e)) - amount,
                  pendingUnstake := amount,
                  unstakeRequestTime := getCurrentTime e\<rparr>"])
       (simp_all add: s')
qed

lemma executeUnstake_eq_Inr:
  "executeUnstake s e = Inr (s', calls) \<longleftrightarrow>
     (\<exists>s1. updateTrackers s e (msg_sender e) = Inr s1 \<and>
        unstakeRequestTime (voterStakes s1 (msg_sender e)) \<noteq> 0 \<and>
        unat (unstakeRequestTime (voterStakes s1 (msg_sender e))) + unat (unstakeCoolDown s1)
          \<le> unat (getCurrentTime e) \<and>
        (if pendingUnstake (voterStakes s1 (msg_sender e)) > 0 then
           tokenAccepts e (Transfer (msg_sender e) (pendingUnstake (voterStakes s1 (msg_sender e)))) \<and>
           s' = s1\<lparr>voterStakes := (voterStakes s1)
                    (msg_sender e := (voterStakes s1 (msg_sender e))
                       \<lparr>pendingUnstake := 0, unstakeRequestTime := 0\<rparr>)\<rparr> \<and>
           calls = [Transfer (msg_sender e) (pendingUnstake (voterStakes s1 (msg_sender e)))]
         else s' = s1 \<and> calls = []))"
  (is "?L \<longleftrightarrow> ?R")
proof
  assume ?L
  then show ?R
    unfolding executeUnstake_def
    apply (clarsimp simp: bindR_eq_Inr require_eq_Inr Let_def tokenDo_def add256_eq_Inr
        split: if_splits)
     apply (auto simp: unat_plus word_le_nat_alt)
    done
next
  assume ?R
  then obtain s1 where t: "updateTrackers s e (msg_sender e) = Inr s1"
    and nz: "unstakeRequestTime (voterStakes s1 (msg_sender e)) \<noteq> 0"
    and le: "unat (unstakeRequestTime (voterStakes s1 (msg_sender e))) + unat (unstakeCoolDown s1)
          \<le> unat (getCurrentTime e)"
    and rest: "(if pendingUnstake (voterStakes s1 (msg_sender e)) > 0 then
           tokenAccepts e (Transfer (msg_sender e) (pendingUnstake (voterStakes s1 (msg_sender e)))) \<and>
           s' = s1\<lparr>voterStakes := (voterStakes s1)
                    (msg_sender e := (voterStakes s1 (msg_sender e))
                       \<lparr>pendingUnstake := 0, unstakeRequestTime := 0\<rparr>)\<rparr> \<and>
           calls = [Transfer (msg_sender e) (pendingUnstake (voterStakes s1 (msg_sender e)))]
         else s' = s1 \<and> calls = [])"
    by blast
  have lt: "unat (unstakeRequestTime (voterStakes s1 (msg_sender e))) + unat (unstakeCoolDown s1) < 2 ^ 256"
    by (rule le_less_trans [OF le]) simp
  have ready: "unstakeRequestTime (voterStakes s1 (msg_sender e)) + unstakeCoolDown s1 \<le> getCurrentTime e"
    using le lt by (simp add: word_le_nat_alt unat_plus)
  show ?L
    unfolding executeUnstake_def using t nz lt ready rest
    by (auto simp: require_def Let_def tokenDo_def add256_def split: if_splits)
qed

lemma executeUnstake_balanced:
  assumes "executeUnstake s e = Inr (s', calls)" and "ledgerBalanced s"
  shows "ledgerBalanced s'"
proof -
  from assms(1) obtain s1 where
    t: "updateTrackers s e (msg_sender e) = Inr s1" and
    s': "s' = s1 \<or> s' = s1\<lparr>voterStakes := (voterStakes s1)
                    (msg_sender e := (voterStakes s1 (msg_sender e))
                       \<lparr>pendingUnstake := 0, unstakeRequestTime := 0\<rparr>)\<rparr>"
    by (auto simp: executeUnstake_eq_Inr split: if_splits)
  have b1: "ledgerBalanced s1" by (rule updateTrackers_balanced [OF t assms(2)])
  from s' show ?thesis
  proof
    assume "s' = s1" with b1 show ?thesis by simp
  next
    assume "s' = s1\<lparr>voterStakes := (voterStakes s1)
                    (msg_sender e := (voterStakes s1 (msg_sender e))
                       \<lparr>pendingUnstake := 0, unstakeRequestTime := 0\<rparr>)\<rparr>"
    then show ?thesis
      by (intro balanced_step [OF b1, where v = "msg_sender e" and
            r = "(voterStakes s1 (msg_sender e))\<lparr>pendingUnstake := 0, unstakeRequestTime := 0\<rparr>"])
         simp_all
  qed
qed

lemma withdrawRewards_eq_Inr:
  "withdrawRewards s e = Inr (paid, s', calls) \<longleftrightarrow>
     (\<exists>s1. updateTrackers s e (msg_sender e) = Inr s1 \<and>
        paid = outstandingRewards (voterStakes s1 (msg_sender e)) \<and>
        (if paid > 0 then
           tokenAccepts e (Mint (msg_sender e) paid) \<and>
           s' = s1\<lparr>voterStakes := (voterStakes s1)
                    (msg_sender e := (voterStakes s1 (msg_sender e))\<lparr>outstandingRewards := 0\<rparr>)\<rparr> \<and>
           calls = [Mint (msg_sender e) paid]
         else s' = s1 \<and> calls = []))"
  unfolding withdrawRewards_def
  by (auto simp: bindR_eq_Inr require_eq_Inr Let_def split: if_splits)

lemma withdrawRewards_balanced:
  assumes "withdrawRewards s e = Inr (paid, s', calls)" and "ledgerBalanced s"
  shows "ledgerBalanced s'"
proof -
  from assms(1) obtain s1 where
    t: "updateTrackers s e (msg_sender e) = Inr s1" and
    s': "s' = s1 \<or> s' = s1\<lparr>voterStakes := (voterStakes s1)
                    (msg_sender e := (voterStakes s1 (msg_sender e))\<lparr>outstandingRewards := 0\<rparr>)\<rparr>"
    by (auto simp: withdrawRewards_eq_Inr split: if_splits)
  have b1: "ledgerBalanced s1" by (rule updateTrackers_balanced [OF t assms(2)])
  from s' show ?thesis
  proof
    assume "s' = s1" with b1 show ?thesis by simp
  next
    assume "s' = s1\<lparr>voterStakes := (voterStakes s1)
                    (msg_sender e := (voterStakes s1 (msg_sender e))\<lparr>outstandingRewards := 0\<rparr>)\<rparr>"
    then show ?thesis
      by (intro balanced_step [OF b1, where v = "msg_sender e" and
            r = "(voterStakes s1 (msg_sender e))\<lparr>outstandingRewards := 0\<rparr>"])
         simp_all
  qed
qed

lemma exit_eq_Inr:
  "exit s e = Inr (s', calls) \<longleftrightarrow>
     (\<exists>s1 calls1 paid calls2. executeUnstake s e = Inr (s1, calls1) \<and>
        withdrawRewards s1 e = Inr (paid, s', calls2) \<and> calls = calls1 @ calls2)"
  unfolding exit_def
  by (auto simp: bindR_eq_Inr split: prod.splits)

lemma exit_balanced:
  assumes "exit s e = Inr (s', calls)" and "ledgerBalanced s"
  shows "ledgerBalanced s'"
  using assms
  by (auto simp: exit_eq_Inr intro: withdrawRewards_balanced executeUnstake_balanced)

lemma setEmissionRate_eq_Inr:
  "setEmissionRate s e newRate = Inr (s', calls) \<longleftrightarrow>
     owner s = msg_sender e \<and>
     (\<exists>s1. updateReward s e 0 = Inr s1 \<and> s' = s1\<lparr>emissionRate := newRate\<rparr> \<and> calls = [])"
  unfolding setEmissionRate_def onlyOwner_def
  by (auto simp: bindR_eq_Inr require_eq_Inr)

lemma setEmissionRate_balanced:
  assumes "setEmissionRate s e newRate = Inr (s', calls)" and "ledgerBalanced s"
  shows "ledgerBalanced s'"
proof -
  from assms(1) obtain s1 where
    t: "updateReward s e 0 = Inr s1" and s': "s' = s1\<lparr>emissionRate := newRate\<rparr>"
    by (auto simp: setEmissionRate_eq_Inr)
  have "ledgerBalanced s1" by (rule updateReward_balanced [OF t assms(2)])
  then show ?thesis
    by (simp add: s' ledgerBalanced_def sumActiveStake_def sumPendingStake_def)
qed

lemma setUnstakeCoolDown_eq_Inr:
  "setUnstakeCoolDown s e newCoolDown = Inr (s', calls) \<longleftrightarrow>
     owner s = msg_sender e \<and> s' = s\<lparr>unstakeCoolDown := newCoolDown\<rparr> \<and> calls = []"
  unfolding setUnstakeCoolDown_def onlyOwner_def
  by (auto simp: bindR_eq_Inr require_eq_Inr)

lemma setUnstakeCoolDown_balanced:
  assumes "setUnstakeCoolDown s e newCoolDown = Inr (s', calls)" and "ledgerBalanced s"
  shows "ledgerBalanced s'"
  using assms
  by (simp add: setUnstakeCoolDown_eq_Inr ledgerBalanced_def sumActiveStake_def sumPendingStake_def)

lemma call_balanced:
  assumes "call s e op = Inr (s', calls)" and "ledgerBalanced s"
  shows "ledgerBalanced s'"
proof (cases op)
  case (Stake amount)
  with assms show ?thesis by (auto intro: stake_balanced)
next
  case (RequestUnstake amount)
  with assms show ?thesis by (auto intro: requestUnstake_balanced)
next
  case ExecuteUnstake
  with assms show ?thesis by (auto intro: executeUnstake_balanced)
next
  case WithdrawRewards
  with assms show ?thesis
    by (auto simp: bindR_eq_Inr split: prod.splits intro: withdrawRewards_balanced)
next
  case Exit
  with assms show ?thesis by (auto intro: exit_balanced)
next
  case (SetEmissionRate r)
  with assms show ?thesis by (auto intro: setEmissionRate_balanced)
next
  case (SetUnstakeCoolDown c)
  with assms show ?thesis by (auto intro: setUnstakeCoolDown_balanced)
qed

lemma transact_balanced: "ledgerBalanced s \<Longrightarrow> ledgerBalanced (transact s tx)"
  by (auto simp: transact_def split: sum.splits intro: call_balanced)

lemma run_balanced: "ledgerBalanced s \<Longrightarrow> ledgerBalanced (run s txs)"
  by (induction txs arbitrary: s) (simp_all add: transact_balanced)

lemma constructor_balanced: "ledgerBalanced (constructor deployer rate coolDown)"
  by (simp add: ledgerBalanced_def sumActiveStake_def sumPendingStake_def constructor_def
      emptyVoterStake_def)

lemma stake_eq_Inr:
  "stake s e amount = Inr (s', calls) \<longleftrightarrow>
     unat (activeStake (voterStakes s (msg_sender e))) + unat (pendingStake (voterStakes s (msg_sender e)))
       + unat (pendingStake (voterStakes s (msg_sender e))) < 2 ^ 256 \<and>
     (\<exists>s1. updateTrackers
             (if activeStake (voterStakes s (msg_sender e)) + pendingStake (voterStakes s (msg_sender e))
                   + pendingStake (voterStakes s (msg_sender e)) = 0
              then s\<lparr>voterStakes := (voterStakes s)
                      (msg_sender e := (voterStakes s (msg_sender e))
                         \<lparr>lastRequestIndexConsidered := getStartingIndexForStaker e\<rparr>)\<rparr>
              else s) e (msg_sender e) = Inr s1 \<and>
        (if inActiveReveal e then
           unat (pendingStake (voterStakes s1 (msg_sender e))) + unat amount < 2 ^ 256 \<and>
           unat (cumulativePendingStake s1) + unat amount < 2 ^ 256 \<and>
           s' = s1\<lparr>cumulativePendingStake := cumulativePendingStake s1 + amount,
                   voterStakes := (voterStakes s1)
                     (msg_sender e := (voterStakes s1 (msg_sender e))
                        \<lparr>pendingStake := pendingStake (voterStakes s1 (msg_sender e)) + amount\<rparr>)\<rparr>
         else
           unat (activeStake (voterStakes s1 (msg_sender e))) + unat amount < 2 ^ 256 \<and>
           unat (cumulativeActiveStake s1) + unat amount < 2 ^ 256 \<and>
           s' = s1\<lparr>cumulativeActiveStake := cumulativeActiveStake s1 + amount,
                   voterStakes := (voterStakes s1)
                     (msg_sender e := (voterStakes s1 (msg_sender e))
                        \<lparr>activeStake := activeStake (voterStakes s1 (msg_sender e)) + amount\<rparr>)\<rparr>) \<and>
        tokenAccepts e (TransferFrom (msg_sender e) amount) \<and>
        calls = [TransferFrom (msg_sender e) amount])"
  (is "?L \<longleftrightarrow> ?R")
proof
  assume ?L
  then show ?R
    unfolding stake_def getVoterStake_def
    by (auto simp: bindR_eq_Inr add256_eq_Inr Let_def tokenDo_def unat_plus split: if_splits)
next
  assume r: ?R
  have a: "unat (activeStake (voterStakes s (msg_sender e))) + unat (pendingStake (voterStakes s (msg_sender e))) < 2 ^ 256"
    using r by simp
  have b: "unat (activeStake (voterStakes s (msg_sender e)) + pendingStake (voterStakes s (msg_sender e)))
      + unat (pendingStake (voterStakes s (msg_sender e))) < 2 ^ 256"
    using r a by (simp add: unat_plus)
  show ?L
    unfolding stake_def getVoterStake_def using r a b
    by (auto simp: add256_def Let_def tokenDo_def split: if_splits)
qed

section \<open>The accumulator\<close>

lemma add256_ge: "add256 a b = Inr c \<Longrightarrow> a \<le> c"
  using unat_add256 [of a b c] by (simp add: word_le_nat_alt)

lemma rewardPerToken_ge:
  assumes "rewardPerToken s e = Inr r"
  shows "rewardPerTokenStored s \<le> r"
  using assms unfolding rewardPerToken_def
  by (auto simp: bindR_eq_Inr split: if_splits dest: add256_ge)

lemma updateTrackers_globals:
  assumes "updateTrackers s e v = Inr s1"
  shows "emissionRate s1 = emissionRate s"
    and "unstakeCoolDown s1 = unstakeCoolDown s"
    and "owner s1 = owner s"
    and "lastUpdateTime s1 = getCurrentTime e"
    and "rewardPerToken s e = Inr (rewardPerTokenStored s1)"
  using assms
  by (auto simp: updateTrackers_def bindR_eq_Inr
      updateActiveStake_globals updateReward_globals)

lemma updateTrackers_stored:
  "updateTrackers s e v = Inr s1 \<Longrightarrow> rewardPerTokenStored s \<le> rewardPerTokenStored s1"
  by (rule rewardPerToken_ge [OF updateTrackers_globals(5)])

lemma updateReward_stored:
  "updateReward s e v = Inr s1 \<Longrightarrow> rewardPerTokenStored s \<le> rewardPerTokenStored s1"
  by (rule rewardPerToken_ge [OF updateReward_globals(7)])

lemma stake_stored:
  assumes "stake s e amount = Inr (s', calls)"
  shows "rewardPerTokenStored s \<le> rewardPerTokenStored s'"
  using assms
  by (auto simp: stake_eq_Inr split: if_splits dest!: updateTrackers_stored)

lemma requestUnstake_stored:
  assumes "requestUnstake s e amount = Inr (s', calls)"
  shows "rewardPerTokenStored s \<le> rewardPerTokenStored s'"
  using assms
  by (auto simp: requestUnstake_eq_Inr dest!: updateTrackers_stored)

lemma executeUnstake_stored:
  assumes "executeUnstake s e = Inr (s', calls)"
  shows "rewardPerTokenStored s \<le> rewardPerTokenStored s'"
  using assms
  by (auto simp: executeUnstake_eq_Inr split: if_splits dest!: updateTrackers_stored)

lemma withdrawRewards_stored:
  assumes "withdrawRewards s e = Inr (paid, s', calls)"
  shows "rewardPerTokenStored s \<le> rewardPerTokenStored s'"
  using assms
  by (auto simp: withdrawRewards_eq_Inr split: if_splits dest!: updateTrackers_stored)

lemma exit_stored:
  assumes "exit s e = Inr (s', calls)"
  shows "rewardPerTokenStored s \<le> rewardPerTokenStored s'"
  using assms
  by (auto simp: exit_eq_Inr dest!: executeUnstake_stored withdrawRewards_stored)

lemma call_stored:
  assumes "call s e op = Inr (s', calls)"
  shows "rewardPerTokenStored s \<le> rewardPerTokenStored s'"
proof (cases op)
  case (Stake amount)
  with assms show ?thesis by (auto dest: stake_stored)
next
  case (RequestUnstake amount)
  with assms show ?thesis by (auto dest: requestUnstake_stored)
next
  case ExecuteUnstake
  with assms show ?thesis by (auto dest: executeUnstake_stored)
next
  case WithdrawRewards
  with assms show ?thesis
    by (auto simp: bindR_eq_Inr split: prod.splits dest: withdrawRewards_stored)
next
  case Exit
  with assms show ?thesis by (auto dest: exit_stored)
next
  case (SetEmissionRate r)
  with assms show ?thesis
    by (auto simp: setEmissionRate_eq_Inr dest!: updateReward_stored)
next
  case (SetUnstakeCoolDown c)
  with assms show ?thesis by (auto simp: setUnstakeCoolDown_eq_Inr)
qed

lemma transact_stored: "rewardPerTokenStored s \<le> rewardPerTokenStored (transact s tx)"
  by (auto simp: transact_def split: sum.splits dest: call_stored)

lemma rewardPerToken_zero_stake:
  assumes "unat (cumulativeActiveStake s) + unat (cumulativePendingStake s) = 0"
  shows "rewardPerToken s e = Inr (rewardPerTokenStored s)"
proof -
  from assms have "cumulativeActiveStake s = 0" "cumulativePendingStake s = 0"
    by (simp_all add: unat_eq_0)
  then show ?thesis
    by (simp add: rewardPerToken_def getCumulativeStake_def add256_def)
qed

lemma rewardPerToken_no_division_by_zero:
  "rewardPerToken s e \<noteq> Inl DivisionByZeroPanic"
proof (cases "getCumulativeStake s")
  case (Inl err)
  then have "err = ArithmeticPanic"
    by (auto simp: getCumulativeStake_def add256_def split: if_splits)
  with Inl show ?thesis by (simp add: rewardPerToken_def)
next
  case (Inr total)
  show ?thesis
  proof (cases "total = 0")
    case True
    with Inr show ?thesis by (simp add: rewardPerToken_def)
  next
    case False
    with Inr show ?thesis
      by (auto simp: rewardPerToken_def bindR_def sub256_def mul256_def div256_def add256_def
          split: sum.splits if_splits)
  qed
qed

section \<open>Settlement and promotion, seen from the voter\<close>

lemma active_le_cumulative:
  assumes "ledgerBalanced s"
  shows "activeStake (voterStakes s v) \<le> cumulativeActiveStake s"
proof -
  have "unat (activeStake (voterStakes s v)) \<le> sumActiveStake s"
    unfolding sumActiveStake_def
    by (rule member_le_sum [of v UNIV "\<lambda>v. unat (activeStake (voterStakes s v))"]) simp_all
  with assms show ?thesis by (simp add: ledgerBalanced_def word_le_nat_alt)
qed

lemma sum_fails_iff: "(\<exists>err. x = Inl err) \<longleftrightarrow> (\<forall>y. x \<noteq> Inr y)"
  by (cases x) simp_all

lemma updateTrackers_voters:
  assumes "updateTrackers s e v = Inr s1"
  shows "pendingUnstake (voterStakes s1 u) = pendingUnstake (voterStakes s u)"
    and "unstakeRequestTime (voterStakes s1 u) = unstakeRequestTime (voterStakes s u)"
    and "u \<noteq> v \<Longrightarrow> voterStakes s1 u = voterStakes s u"
  using assms
  by (auto simp: updateTrackers_def updateActiveStake_def bindR_eq_Inr updateReward_voters
      split: if_splits)

lemma updateTrackers_promoted:
  assumes "updateTrackers s e v = Inr s1" and "\<not> inActiveReveal e"
  shows "pendingStake (voterStakes s1 v) = 0"
    and "unat (activeStake (voterStakes s1 v)) =
           unat (activeStake (voterStakes s v)) + unat (pendingStake (voterStakes s v))"
    and "unat (cumulativeActiveStake s1) =
           unat (cumulativeActiveStake s) + unat (pendingStake (voterStakes s v))"
    and "unat (cumulativePendingStake s1) + unat (pendingStake (voterStakes s v)) =
           unat (cumulativePendingStake s)"
proof -
  from assms(1) obtain s0 where r: "updateReward s e v = Inr s0"
    and a: "updateActiveStake s0 e v = Inr s1"
    by (auto simp: updateTrackers_def bindR_eq_Inr)
  note p = updateActiveStake_promote [OF a assms(2)]
  note g = updateReward_globals [OF r]
  note w = updateReward_voters [OF r]
  show "pendingStake (voterStakes s1 v) = 0" by (simp add: p(1))
  show "unat (activeStake (voterStakes s1 v)) =
           unat (activeStake (voterStakes s v)) + unat (pendingStake (voterStakes s v))"
    using p(4) by (simp add: p(1) w)
  show "unat (cumulativeActiveStake s1) =
           unat (cumulativeActiveStake s) + unat (pendingStake (voterStakes s v))"
    using p(2) by (simp add: g w)
  show "unat (cumulativePendingStake s1) + unat (pendingStake (voterStakes s v)) =
           unat (cumulativePendingStake s)"
    using p(3) by (simp add: g w)
qed

section \<open>Settling twice at the same time\<close>

lemma rewardPerToken_at_update_time:
  assumes "lastUpdateTime s = getCurrentTime e"
    and "unat (cumulativeActiveStake s) + unat (cumulativePendingStake s) < 2 ^ 256"
  shows "rewardPerToken s e = Inr (rewardPerTokenStored s)"
  using assms
  by (simp add: rewardPerToken_def getCumulativeStake_def add256_def sub256_def mul256_def
      div256_def)

lemma getCumulativeStake_of_rewardPerToken:
  assumes "rewardPerToken s e = Inr r"
  shows "unat (cumulativeActiveStake s) + unat (cumulativePendingStake s) < 2 ^ 256"
  using assms
  by (auto simp: rewardPerToken_def getCumulativeStake_def bindR_eq_Inr add256_eq_Inr)

lemma rewardPerToken_after_store:
  assumes "rewardPerToken s e = Inr r"
  shows "rewardPerToken (s\<lparr>rewardPerTokenStored := r, lastUpdateTime := getCurrentTime e\<rparr>) e = Inr r"
  using getCumulativeStake_of_rewardPerToken [OF assms]
  by (intro rewardPerToken_at_update_time [THEN trans]) simp_all

lemma outstandingRewardsOf_after_store:
  assumes "rewardPerToken s e = Inr r"
  shows "outstandingRewardsOf (s\<lparr>rewardPerTokenStored := r, lastUpdateTime := getCurrentTime e\<rparr>) e v =
         outstandingRewardsOf s e v"
  using assms rewardPerToken_after_store [OF assms]
  by (simp add: outstandingRewardsOf_def getVoterStake_def)

lemma updateReward_settles:
  assumes "updateReward s e v = Inr s1" and "v \<noteq> 0"
  shows "outstandingRewardsOf s e v = Inr (outstandingRewards (voterStakes s1 v))"
    and "rewardsPaidPerToken (voterStakes s1 v) = rewardPerTokenStored s1"
    and "unat (activeStake (voterStakes s v)) + unat (pendingStake (voterStakes s v)) < 2 ^ 256"
proof -
  from assms obtain r owed where r: "rewardPerToken s e = Inr r"
    and o: "outstandingRewardsOf (s\<lparr>rewardPerTokenStored := r, lastUpdateTime := getCurrentTime e\<rparr>) e v = Inr owed"
    and s1: "s1 = s\<lparr>rewardPerTokenStored := r, lastUpdateTime := getCurrentTime e,
        voterStakes := (voterStakes s)(v := (voterStakes s v)
          \<lparr>outstandingRewards := owed, rewardsPaidPerToken := r\<rparr>)\<rparr>"
    by (auto simp: updateReward_def Let_def bindR_eq_Inr)
  from o have o': "outstandingRewardsOf s e v = Inr owed"
    by (simp add: outstandingRewardsOf_after_store [OF r])
  then show "outstandingRewardsOf s e v = Inr (outstandingRewards (voterStakes s1 v))"
    by (simp add: s1)
  show "rewardsPaidPerToken (voterStakes s1 v) = rewardPerTokenStored s1"
    by (simp add: s1)
  from o' show "unat (activeStake (voterStakes s v)) + unat (pendingStake (voterStakes s v)) < 2 ^ 256"
    by (auto simp: outstandingRewardsOf_def getVoterStake_def bindR_eq_Inr add256_eq_Inr)
qed

lemma same_lastUpdateTime: "lastUpdateTime s = t \<Longrightarrow> s\<lparr>lastUpdateTime := t\<rparr> = s"
  by auto

lemma same_pendingStake:
  "pendingStake (voterStakes s v) = p \<Longrightarrow>
     s\<lparr>voterStakes := (voterStakes s)(v := (voterStakes s v)\<lparr>pendingStake := p\<rparr>)\<rparr> = s"
  by auto

lemma settled_updateReward:
  assumes "settled s e v"
  shows "updateReward s e v = Inr s"
proof -
  have r: "rewardPerToken s e = Inr (rewardPerTokenStored s)"
    using assms by (intro rewardPerToken_at_update_time) (simp_all add: settled_def)
  have t: "getCurrentTime e = lastUpdateTime s"
    using assms by (simp add: settled_def)
  have l: "s\<lparr>rewardPerTokenStored := rewardPerTokenStored s, lastUpdateTime := getCurrentTime e\<rparr> = s"
    unfolding t by simp
  show ?thesis
  proof (cases "v = 0")
    case True
    then show ?thesis unfolding updateReward_def r bindR_Inr Let_def l by simp
  next
    case False
    with assms have o: "outstandingRewardsOf s e v = Inr (outstandingRewards (voterStakes s v))"
      and p: "rewardPerTokenStored s = rewardsPaidPerToken (voterStakes s v)"
      by (simp_all add: outstandingRewardsOf_def getVoterStake_def r settled_def
          add256_def sub256_def mul256_def div256_def)
    have w: "s\<lparr>voterStakes := (voterStakes s)(v := (voterStakes s v)
        \<lparr>outstandingRewards := outstandingRewards (voterStakes s v),
         rewardsPaidPerToken := rewardPerTokenStored s\<rparr>)\<rparr> = s"
      unfolding p by simp
    from False show ?thesis
      unfolding updateReward_def r bindR_Inr Let_def l o w by simp
  qed
qed

lemma settled_updateActiveStake:
  assumes "settled s e v"
  shows "updateActiveStake s e v = Inr s"
proof (cases "inActiveReveal e")
  case True
  then show ?thesis by (simp add: updateActiveStake_def)
next
  case False
  with assms have "pendingStake (voterStakes s v) = 0" by (simp add: settled_def)
  with False show ?thesis
    by (simp add: updateActiveStake_def add256_def sub256_def same_pendingStake)
qed

lemma settled_updateTrackers: "settled s e v \<Longrightarrow> updateTrackers s e v = Inr s"
  by (simp add: updateTrackers_def settled_updateReward settled_updateActiveStake)

lemma updateTrackers_settled:
  assumes "updateTrackers s e v = Inr s1"
  shows "settled s1 e v"
proof -
  from assms obtain s0 where r: "updateReward s e v = Inr s0"
    and a: "updateActiveStake s0 e v = Inr s1"
    by (auto simp: updateTrackers_def bindR_eq_Inr)
  note g = updateReward_globals [OF r]
  have tot: "unat (cumulativeActiveStake s0) + unat (cumulativePendingStake s0) < 2 ^ 256"
    using getCumulativeStake_of_rewardPerToken [OF g(7)] by (simp add: g)
  show ?thesis
  proof (cases "inActiveReveal e")
    case True
    with a have "s1 = s0" by (simp add: updateActiveStake_def)
    with True tot g updateReward_settles(2,3) [OF r] updateReward_voters(1,2) [OF r]
    show ?thesis by (auto simp: settled_def)
  next
    case False
    note p = updateActiveStake_promote [OF a False]
    note h = updateActiveStake_globals [OF a]
    have "v \<noteq> 0 \<Longrightarrow> rewardsPaidPerToken (voterStakes s1 v) = rewardPerTokenStored s1"
      using updateReward_settles(2) [OF r] by (simp add: p(1) h)
    moreover have "unat (activeStake (voterStakes s1 v)) + unat (pendingStake (voterStakes s1 v)) < 2 ^ 256"
      by (simp add: p(1))
    moreover have "unat (cumulativeActiveStake s1) + unat (cumulativePendingStake s1) < 2 ^ 256"
      using tot p(2,3) by simp
    moreover have "pendingStake (voterStakes s1 v) = 0" by (simp add: p(1))
    ultimately show ?thesis using g(6) h by (auto simp: settled_def)
  qed
qed

lemma updateTrackers_again:
  "updateTrackers s e v = Inr s1 \<Longrightarrow> updateTrackers s1 e v = Inr s1"
  by (rule settled_updateTrackers [OF updateTrackers_settled])

lemma executeUnstake_not_ready:
  assumes "\<not> (unstakeRequestTime (voterStakes s (msg_sender e)) \<noteq> 0 \<and>
      unat (unstakeRequestTime (voterStakes s (msg_sender e))) + unat (unstakeCoolDown s)
        \<le> unat (getCurrentTime e))"
  shows "\<exists>err. executeUnstake s e = Inl err"
proof -
  have "executeUnstake s e \<noteq> Inr (s', calls)" for s' calls
  proof
    assume "executeUnstake s e = Inr (s', calls)"
    then obtain s1 where t: "updateTrackers s e (msg_sender e) = Inr s1"
      and "unstakeRequestTime (voterStakes s1 (msg_sender e)) \<noteq> 0"
      and "unat (unstakeRequestTime (voterStakes s1 (msg_sender e))) + unat (unstakeCoolDown s1)
          \<le> unat (getCurrentTime e)"
      by (auto simp: executeUnstake_eq_Inr)
    with assms show False
      by (simp add: updateTrackers_voters(2) [OF t] updateTrackers_globals(2) [OF t])
  qed
  then show ?thesis by (auto simp: sum_fails_iff)
qed

section \<open>Promotion of pending stake, operation by operation\<close>

lemma updateTrackers_promotedBy:
  assumes "updateTrackers t e v = Inr t1" and "\<not> inActiveReveal e"
  shows "promotedBy t t1 v 0 0"
  using updateTrackers_promoted [OF assms] updateTrackers_voters(3) [OF assms(1)]
  by (auto simp: promotedBy_def)

lemma promotedBy_then:
  assumes "promotedBy t t1 v 0 0"
    and "pendingStake (voterStakes t' v) = pendingStake (voterStakes t1 v)"
    and "unat (activeStake (voterStakes t' v)) + unstaked = unat (activeStake (voterStakes t1 v)) + staked"
    and "unat (cumulativeActiveStake t') + unstaked = unat (cumulativeActiveStake t1) + staked"
    and "cumulativePendingStake t' = cumulativePendingStake t1"
    and "\<And>u. u \<noteq> v \<Longrightarrow> voterStakes t' u = voterStakes t1 u"
  shows "promotedBy t t' v staked unstaked"
  using assms unfolding promotedBy_def by (auto; metis)

lemma promotedBy_trans:
  assumes "promotedBy t t1 v 0 0" and "promotedBy t1 t2 v 0 0"
  shows "promotedBy t t2 v 0 0"
  using assms unfolding promotedBy_def by (auto; metis)

lemma promotedBy_cong:
  assumes "promotedBy t0 t' v staked unstaked"
    and "activeStake (voterStakes t0 v) = activeStake (voterStakes t v)"
    and "pendingStake (voterStakes t0 v) = pendingStake (voterStakes t v)"
    and "cumulativeActiveStake t0 = cumulativeActiveStake t"
    and "cumulativePendingStake t0 = cumulativePendingStake t"
    and "\<And>u. u \<noteq> v \<Longrightarrow> voterStakes t0 u = voterStakes t u"
  shows "promotedBy t t' v staked unstaked"
  using assms unfolding promotedBy_def by (auto; metis)

lemma stake_promotedBy:
  assumes "stake t e amount = Inr (t', calls)" and "\<not> inActiveReveal e"
  shows "promotedBy t t' (msg_sender e) (unat amount) 0"
proof -
  define t0 where "t0 =
     (if activeStake (voterStakes t (msg_sender e)) + pendingStake (voterStakes t (msg_sender e))
           + pendingStake (voterStakes t (msg_sender e)) = 0
      then t\<lparr>voterStakes := (voterStakes t)
              (msg_sender e := (voterStakes t (msg_sender e))
                 \<lparr>lastRequestIndexConsidered := getStartingIndexForStaker e\<rparr>)\<rparr>
      else t)"
  from assms obtain t1 where tr: "updateTrackers t0 e (msg_sender e) = Inr t1"
    and b: "unat (activeStake (voterStakes t1 (msg_sender e))) + unat amount < 2 ^ 256"
           "unat (cumulativeActiveStake t1) + unat amount < 2 ^ 256"
    and t': "t' = t1\<lparr>cumulativeActiveStake := cumulativeActiveStake t1 + amount,
                   voterStakes := (voterStakes t1)
                     (msg_sender e := (voterStakes t1 (msg_sender e))
                        \<lparr>activeStake := activeStake (voterStakes t1 (msg_sender e)) + amount\<rparr>)\<rparr>"
    unfolding stake_eq_Inr t0_def by auto
  have p: "promotedBy t0 t1 (msg_sender e) 0 0"
    by (rule updateTrackers_promotedBy [OF tr assms(2)])
  have "promotedBy t0 t' (msg_sender e) (unat amount) 0"
    using b by (intro promotedBy_then [OF p]) (simp_all add: t' unat_plus)
  then show ?thesis
    by (rule promotedBy_cong) (simp_all add: t0_def)
qed

lemma requestUnstake_promotedBy:
  assumes "requestUnstake t e amount = Inr (t', calls)"
  shows "promotedBy t t' (msg_sender e) 0 (unat amount)"
proof -
  from assms obtain t1 where nr: "\<not> inActiveReveal e"
    and tr: "updateTrackers t e (msg_sender e) = Inr t1"
    and le: "amount \<le> activeStake (voterStakes t1 (msg_sender e))" "amount \<le> cumulativeActiveStake t1"
    and t': "t' = t1\<lparr>cumulativeActiveStake := cumulativeActiveStake t1 - amount,
                voterStakes := (voterStakes t1)
                  (msg_sender e := (voterStakes t1 (msg_sender e))
                     \<lparr>activeStake := activeStake (voterStakes t1 (msg_sender e)) - amount,
                      pendingUnstake := amount,
                      unstakeRequestTime := getCurrentTime e\<rparr>)\<rparr>"
    by (auto simp: requestUnstake_eq_Inr)
  have p: "promotedBy t t1 (msg_sender e) 0 0"
    by (rule updateTrackers_promotedBy [OF tr nr])
  show ?thesis
    using unat_minus [OF le(1)] unat_minus [OF le(2)]
    by (intro promotedBy_then [OF p]) (simp_all add: t')
qed

lemma executeUnstake_promotedBy:
  assumes "executeUnstake t e = Inr (t', calls)" and "\<not> inActiveReveal e"
  shows "promotedBy t t' (msg_sender e) 0 0"
proof -
  from assms(1) obtain t1 where tr: "updateTrackers t e (msg_sender e) = Inr t1"
    and t': "t' = t1 \<or> t' = t1\<lparr>voterStakes := (voterStakes t1)
                    (msg_sender e := (voterStakes t1 (msg_sender e))
                       \<lparr>pendingUnstake := 0, unstakeRequestTime := 0\<rparr>)\<rparr>"
    by (auto simp: executeUnstake_eq_Inr split: if_splits)
  have p: "promotedBy t t1 (msg_sender e) 0 0"
    by (rule updateTrackers_promotedBy [OF tr assms(2)])
  from t' show ?thesis
  proof
    assume "t' = t1" with p show ?thesis by simp
  next
    assume "t' = t1\<lparr>voterStakes := (voterStakes t1)
                    (msg_sender e := (voterStakes t1 (msg_sender e))
                       \<lparr>pendingUnstake := 0, unstakeRequestTime := 0\<rparr>)\<rparr>"
    with p show ?thesis by (intro promotedBy_then [OF p]) simp_all
  qed
qed

lemma withdrawRewards_promotedBy:
  assumes "withdrawRewards t e = Inr (paid, t', calls)" and "\<not> inActiveReveal e"
  shows "promotedBy t t' (msg_sender e) 0 0"
proof -
  from assms(1) obtain t1 where tr: "updateTrackers t e (msg_sender e) = Inr t1"
    and t': "t' = t1 \<or> t' = t1\<lparr>voterStakes := (voterStakes t1)
                    (msg_sender e := (voterStakes t1 (msg_sender e))\<lparr>outstandingRewards := 0\<rparr>)\<rparr>"
    by (auto simp: withdrawRewards_eq_Inr split: if_splits)
  have p: "promotedBy t t1 (msg_sender e) 0 0"
    by (rule updateTrackers_promotedBy [OF tr assms(2)])
  from t' show ?thesis
  proof
    assume "t' = t1" with p show ?thesis by simp
  next
    assume "t' = t1\<lparr>voterStakes := (voterStakes t1)
                    (msg_sender e := (voterStakes t1 (msg_sender e))\<lparr>outstandingRewards := 0\<rparr>)\<rparr>"
    with p show ?thesis by (intro promotedBy_then [OF p]) simp_all
  qed
qed

lemma call_promotedBy:
  assumes "call t e op = Inr (t', calls)" and "\<not> inActiveReveal e" and "voterOperation op"
  shows "promotedBy t t' (msg_sender e) (stakedBy op) (unstakedBy op)"
proof (cases op)
  case (Stake amount)
  with assms show ?thesis by (simp add: stake_promotedBy)
next
  case (RequestUnstake amount)
  with assms show ?thesis by (simp add: requestUnstake_promotedBy)
next
  case ExecuteUnstake
  with assms show ?thesis by (simp add: executeUnstake_promotedBy)
next
  case WithdrawRewards
  with assms show ?thesis
    by (auto simp: bindR_eq_Inr split: prod.splits intro: withdrawRewards_promotedBy)
next
  case Exit
  with assms obtain t1 calls1 paid calls2 where "executeUnstake t e = Inr (t1, calls1)"
    and "withdrawRewards t1 e = Inr (paid, t', calls2)"
    by (auto simp: exit_eq_Inr)
  with assms(2) Exit show ?thesis
    by (auto intro: promotedBy_trans executeUnstake_promotedBy withdrawRewards_promotedBy)
next
  case (SetEmissionRate r)
  with assms show ?thesis by simp
next
  case (SetUnstakeCoolDown c)
  with assms show ?thesis by simp
qed

lemma stake_in_reveal:
  assumes "stake s e amount = Inr (s1, calls)" and "inActiveReveal e"
  shows "unat (pendingStake (voterStakes s1 (msg_sender e))) =
           unat (pendingStake (voterStakes s (msg_sender e))) + unat amount"
    and "unat (cumulativePendingStake s1) = unat (cumulativePendingStake s) + unat amount"
    and "activeStake (voterStakes s1 (msg_sender e)) = activeStake (voterStakes s (msg_sender e))"
    and "cumulativeActiveStake s1 = cumulativeActiveStake s"
    and "u \<noteq> msg_sender e \<Longrightarrow> voterStakes s1 u = voterStakes s u"
    and "calls = [TransferFrom (msg_sender e) amount]"
proof -
  define s0 where "s0 =
     (if activeStake (voterStakes s (msg_sender e)) + pendingStake (voterStakes s (msg_sender e))
           + pendingStake (voterStakes s (msg_sender e)) = 0
      then s\<lparr>voterStakes := (voterStakes s)
              (msg_sender e := (voterStakes s (msg_sender e))
                 \<lparr>lastRequestIndexConsidered := getStartingIndexForStaker e\<rparr>)\<rparr>
      else s)"
  from assms obtain st where tr: "updateTrackers s0 e (msg_sender e) = Inr st"
    and b: "unat (pendingStake (voterStakes st (msg_sender e))) + unat amount < 2 ^ 256"
           "unat (cumulativePendingStake st) + unat amount < 2 ^ 256"
    and s1: "s1 = st\<lparr>cumulativePendingStake := cumulativePendingStake st + amount,
                   voterStakes := (voterStakes st)
                     (msg_sender e := (voterStakes st (msg_sender e))
                        \<lparr>pendingStake := pendingStake (voterStakes st (msg_sender e)) + amount\<rparr>)\<rparr>"
    and c: "calls = [TransferFrom (msg_sender e) amount]"
    unfolding stake_eq_Inr s0_def by auto
  from tr assms(2) obtain r: "updateReward s0 e (msg_sender e) = Inr st"
    by (auto simp: updateTrackers_def bindR_eq_Inr updateActiveStake_def)
  note g = updateReward_globals [OF r] and v = updateReward_voters [OF r]
  show "unat (pendingStake (voterStakes s1 (msg_sender e))) =
           unat (pendingStake (voterStakes s (msg_sender e))) + unat amount"
    using b by (simp add: s1 unat_plus v) (simp add: s0_def)
  show "unat (cumulativePendingStake s1) = unat (cumulativePendingStake s) + unat amount"
    using b by (simp add: s1 unat_plus g) (simp add: s0_def)
  show "activeStake (voterStakes s1 (msg_sender e)) = activeStake (voterStakes s (msg_sender e))"
    by (simp add: s1 v) (simp add: s0_def)
  show "cumulativeActiveStake s1 = cumulativeActiveStake s"
    by (simp add: s1 g) (simp add: s0_def)
  show "u \<noteq> msg_sender e \<Longrightarrow> voterStakes s1 u = voterStakes s u"
    by (simp add: s1 v) (simp add: s0_def)
  show "calls = [TransferFrom (msg_sender e) amount]" by (rule c)
qed

lemma updateReward_zero_address:
  "updateReward s e 0 = Inr s1 \<Longrightarrow> voterStakes s1 = voterStakes s"
  by (auto simp: updateReward_def Let_def bindR_eq_Inr)

lemma stake_frame:
  assumes "stake t e amount = Inr (t', calls)" and "u \<noteq> msg_sender e"
  shows "voterStakes t' u = voterStakes t u"
proof -
  define t0 where "t0 =
     (if activeStake (voterStakes t (msg_sender e)) + pendingStake (voterStakes t (msg_sender e))
           + pendingStake (voterStakes t (msg_sender e)) = 0
      then t\<lparr>voterStakes := (voterStakes t)
              (msg_sender e := (voterStakes t (msg_sender e))
                 \<lparr>lastRequestIndexConsidered := getStartingIndexForStaker e\<rparr>)\<rparr>
      else t)"
  from assms(1) obtain t1 where tr: "updateTrackers t0 e (msg_sender e) = Inr t1"
    and t': "voterStakes t' u = voterStakes t1 u"
    unfolding stake_eq_Inr t0_def using assms(2) by (auto split: if_splits)
  have "voterStakes t1 u = voterStakes t0 u"
    by (rule updateTrackers_voters(3) [OF tr assms(2)])
  with t' assms(2) show ?thesis by (simp add: t0_def)
qed

lemma executeUnstake_frame:
  assumes "executeUnstake t e = Inr (t', calls)" and "u \<noteq> msg_sender e"
  shows "voterStakes t' u = voterStakes t u"
  using assms
  by (auto simp: executeUnstake_eq_Inr updateTrackers_voters(3) split: if_splits)

lemma withdrawRewards_frame:
  assumes "withdrawRewards t e = Inr (paid, t', calls)" and "u \<noteq> msg_sender e"
  shows "voterStakes t' u = voterStakes t u"
  using assms
  by (auto simp: withdrawRewards_eq_Inr updateTrackers_voters(3) split: if_splits)

lemma call_frame:
  assumes "call t e op = Inr (t', calls)" and "u \<noteq> msg_sender e"
  shows "voterStakes t' u = voterStakes t u"
proof (cases op)
  case (Stake amount)
  with assms show ?thesis by (simp add: stake_frame)
next
  case (RequestUnstake amount)
  with assms show ?thesis
    by (auto simp: requestUnstake_eq_Inr updateTrackers_voters(3))
next
  case ExecuteUnstake
  with assms show ?thesis by (simp add: executeUnstake_frame)
next
  case WithdrawRewards
  with assms show ?thesis
    by (auto simp: bindR_eq_Inr split: prod.splits dest: withdrawRewards_frame)
next
  case Exit
  with assms show ?thesis
    by (auto simp: exit_eq_Inr dest!: executeUnstake_frame withdrawRewards_frame)
next
  case (SetEmissionRate r)
  with assms show ?thesis
    by (auto simp: setEmissionRate_eq_Inr dest: updateReward_zero_address)
next
  case (SetUnstakeCoolDown c)
  with assms show ?thesis by (auto simp: setUnstakeCoolDown_eq_Inr)
qed

lemma setter_no_promotion:
  assumes "\<not> voterOperation op" and "call t e op = Inr (t', calls)"
  shows "voterStakes t' = voterStakes t"
    and "cumulativeActiveStake t' = cumulativeActiveStake t"
    and "cumulativePendingStake t' = cumulativePendingStake t"
proof -
  have "voterStakes t' = voterStakes t \<and>
      cumulativeActiveStake t' = cumulativeActiveStake t \<and>
      cumulativePendingStake t' = cumulativePendingStake t"
  proof (cases op)
    case (SetEmissionRate r)
    with assms(2) obtain t1 where u: "updateReward t e 0 = Inr t1"
      and t': "t' = t1\<lparr>emissionRate := r\<rparr>"
      by (auto simp: setEmissionRate_eq_Inr)
    show ?thesis
      by (simp add: t' updateReward_zero_address [OF u] updateReward_globals(2,3) [OF u])
  next
    case (SetUnstakeCoolDown c)
    with assms(2) show ?thesis by (auto simp: setUnstakeCoolDown_eq_Inr)
  qed (use assms(1) in simp_all)
  then show "voterStakes t' = voterStakes t"
    and "cumulativeActiveStake t' = cumulativeActiveStake t"
    and "cumulativePendingStake t' = cumulativePendingStake t"
    by simp_all
qed

section \<open>The reward views as arithmetic on natural numbers\<close>

lemma rewardPerToken_unat:
  assumes "rewardPerToken s e = Inr rpt"
    and "0 < unat (cumulativeActiveStake s) + unat (cumulativePendingStake s)"
  shows "unat rpt = unat (rewardPerTokenStored s) +
           ((unat (getCurrentTime e) - unat (lastUpdateTime s)) * unat (emissionRate s) * 10 ^ 18)
             div (unat (cumulativeActiveStake s) + unat (cumulativePendingStake s))"
proof -
  from assms(1) obtain total where t: "getCumulativeStake s = Inr total"
    by (auto simp: rewardPerToken_def bindR_eq_Inr)
  then have ut: "unat total = unat (cumulativeActiveStake s) + unat (cumulativePendingStake s)"
    by (auto simp: getCumulativeStake_def dest: unat_add256)
  with assms(2) have nz: "total \<noteq> 0" by (auto simp: unat_eq_0)
  from assms(1) t nz obtain elapsed emitted scaled increase where
    a: "sub256 (getCurrentTime e) (lastUpdateTime s) = Inr elapsed"
    and b: "mul256 elapsed (emissionRate s) = Inr emitted"
    and c: "mul256 emitted 1000000000000000000 = Inr scaled"
    and d: "div256 scaled total = Inr increase"
    and f: "add256 (rewardPerTokenStored s) increase = Inr rpt"
    by (auto simp: rewardPerToken_def bindR_eq_Inr)
  from unat_sub256 [OF a] have "unat elapsed = unat (getCurrentTime e) - unat (lastUpdateTime s)"
    by simp
  with unat_mul256 [OF b] unat_mul256 [OF c] unat_div256 [OF d] unat_add256 [OF f] ut
  show ?thesis by simp
qed

lemma outstandingRewardsOf_unat:
  assumes "outstandingRewardsOf s e v = Inr owed"
  shows "\<exists>rpt. rewardPerToken s e = Inr rpt \<and>
           unat owed =
             ((unat (activeStake (voterStakes s v)) + unat (pendingStake (voterStakes s v))) *
              (unat rpt - unat (rewardsPaidPerToken (voterStakes s v)))) div 10 ^ 18 +
             unat (outstandingRewards (voterStakes s v))"
proof -
  from assms obtain staked rpt unpaid product earned where
    a: "getVoterStake s v = Inr staked"
    and r: "rewardPerToken s e = Inr rpt"
    and b: "sub256 rpt (rewardsPaidPerToken (voterStakes s v)) = Inr unpaid"
    and c: "mul256 staked unpaid = Inr product"
    and d: "div256 product 1000000000000000000 = Inr earned"
    and f: "add256 earned (outstandingRewards (voterStakes s v)) = Inr owed"
    by (auto simp: outstandingRewardsOf_def bindR_eq_Inr)
  from a have "unat staked = unat (activeStake (voterStakes s v)) + unat (pendingStake (voterStakes s v))"
    by (auto simp: getVoterStake_def dest: unat_add256)
  moreover from unat_sub256 [OF b]
  have "unat unpaid = unat rpt - unat (rewardsPaidPerToken (voterStakes s v))" by simp
  ultimately show ?thesis
    using r unat_mul256 [OF c] unat_div256 [OF d] unat_add256 [OF f] by simp
qed

lemma updateTrackers_outstanding:
  assumes "updateTrackers s e v = Inr s1" and "v \<noteq> 0"
  shows "outstandingRewardsOf s e v = Inr (outstandingRewards (voterStakes s1 v))"
proof -
  from assms(1) obtain s0 where r: "updateReward s e v = Inr s0"
    and a: "updateActiveStake s0 e v = Inr s1"
    by (auto simp: updateTrackers_def bindR_eq_Inr)
  have "outstandingRewards (voterStakes s1 v) = outstandingRewards (voterStakes s0 v)"
    using a by (auto simp: updateActiveStake_def bindR_eq_Inr split: if_splits)
  with updateReward_settles(1) [OF r assms(2)] show ?thesis by simp
qed

lemma mul256_ok: "unat a * unat b < 2 ^ 256 \<Longrightarrow> mul256 a b = Inr (a * b)"
  by (simp add: mul256_def)

lemma add256_ok: "unat a + unat b < 2 ^ 256 \<Longrightarrow> add256 a b = Inr (a + b)"
  by (simp add: add256_def)

lemma unat_times:
  fixes a b :: uint256
  shows "unat a * unat b < 2 ^ 256 \<Longrightarrow> unat (a * b) = unat a * unat b"
  using unat_mult_lem [of a b] by simp

lemma rewardPerToken_succeeds:
  assumes "unat (cumulativeActiveStake s) + unat (cumulativePendingStake s) < 2 ^ 256"
    and "lastUpdateTime s \<le> getCurrentTime e"
    and "(unat (getCurrentTime e) - unat (lastUpdateTime s)) * unat (emissionRate s) * 10 ^ 18 < 2 ^ 256"
    and "unat (rewardPerTokenStored s) +
           ((unat (getCurrentTime e) - unat (lastUpdateTime s)) * unat (emissionRate s) * 10 ^ 18)
             div (unat (cumulativeActiveStake s) + unat (cumulativePendingStake s)) < 2 ^ 256"
  shows "\<exists>rpt. rewardPerToken s e = Inr rpt"
proof -
  let ?total = "cumulativeActiveStake s + cumulativePendingStake s"
  let ?elapsed = "getCurrentTime e - lastUpdateTime s"
  have t: "getCumulativeStake s = Inr ?total"
    using assms(1) by (simp add: getCumulativeStake_def add256_ok)
  have ut: "unat ?total = unat (cumulativeActiveStake s) + unat (cumulativePendingStake s)"
    using assms(1) by (rule unat_plus)
  show ?thesis
  proof (cases "?total = 0")
    case True
    with t show ?thesis by (simp add: rewardPerToken_def)
  next
    case False
    have ue: "unat ?elapsed = unat (getCurrentTime e) - unat (lastUpdateTime s)"
      using assms(2) by (simp add: unat_sub)
    have le: "(unat (getCurrentTime e) - unat (lastUpdateTime s)) * unat (emissionRate s) \<le>
        (unat (getCurrentTime e) - unat (lastUpdateTime s)) * unat (emissionRate s) * 10 ^ 18"
      by simp
    have m1: "unat ?elapsed * unat (emissionRate s) < 2 ^ 256"
      unfolding ue by (rule le_less_trans [OF le assms(3)])
    then have u1: "unat (?elapsed * emissionRate s) = unat ?elapsed * unat (emissionRate s)"
      by (rule unat_times)
    have m2: "unat (?elapsed * emissionRate s) * unat (1000000000000000000 :: uint256) < 2 ^ 256"
      using assms(3) by (simp add: u1 ue)
    then have u2: "unat (?elapsed * emissionRate s * 1000000000000000000) =
        unat ?elapsed * unat (emissionRate s) * 10 ^ 18"
      using unat_times [OF m2] by (simp add: u1)
    have a: "unat (rewardPerTokenStored s) +
        unat ((?elapsed * emissionRate s * 1000000000000000000) div ?total) < 2 ^ 256"
      using assms(4) by (simp add: unat_div u2 ut ue)
    show ?thesis
      unfolding rewardPerToken_def
      using False assms(2) m1 m2 a
      by (simp add: t sub256_def mul256_ok div256_def add256_ok)
  qed
qed

lemma outstandingRewardsOf_no_stake:
  assumes "outstandingRewardsOf s e v = Inr owed"
    and "activeStake (voterStakes s v) = 0" and "pendingStake (voterStakes s v) = 0"
  shows "owed = outstandingRewards (voterStakes s v)"
proof -
  from outstandingRewardsOf_unat [OF assms(1)] assms(2,3)
  have "unat owed = unat (outstandingRewards (voterStakes s v))" by auto
  then show ?thesis by (simp add: word_unat_eq_iff)
qed

lemma stake_into_empty:
  assumes st: "stake s e amount = Inr (s1, calls)"
    and nr: "\<not> inActiveReveal e" and nz: "msg_sender e \<noteq> 0"
    and empty: "cumulativeActiveStake s = 0" "cumulativePendingStake s = 0"
    and fresh: "activeStake (voterStakes s (msg_sender e)) = 0"
      "pendingStake (voterStakes s (msg_sender e)) = 0"
      "outstandingRewards (voterStakes s (msg_sender e)) = 0"
  shows "activeStake (voterStakes s1 (msg_sender e)) = amount"
    and "pendingStake (voterStakes s1 (msg_sender e)) = 0"
    and "cumulativeActiveStake s1 = amount"
    and "cumulativePendingStake s1 = 0"
    and "outstandingRewards (voterStakes s1 (msg_sender e)) = 0"
    and "rewardsPaidPerToken (voterStakes s1 (msg_sender e)) = rewardPerTokenStored s1"
    and "rewardPerTokenStored s1 = rewardPerTokenStored s"
    and "lastUpdateTime s1 = getCurrentTime e"
    and "emissionRate s1 = emissionRate s"
proof -
  define s0 where "s0 = s\<lparr>voterStakes := (voterStakes s)
              (msg_sender e := (voterStakes s (msg_sender e))
                 \<lparr>lastRequestIndexConsidered := getStartingIndexForStaker e\<rparr>)\<rparr>"
  from st nr fresh obtain t where tr: "updateTrackers s0 e (msg_sender e) = Inr t"
    and s1: "s1 = t\<lparr>cumulativeActiveStake := cumulativeActiveStake t + amount,
                   voterStakes := (voterStakes t)
                     (msg_sender e := (voterStakes t (msg_sender e))
                        \<lparr>activeStake := activeStake (voterStakes t (msg_sender e)) + amount\<rparr>)\<rparr>"
    unfolding stake_eq_Inr s0_def by auto
  note p = updateTrackers_promoted [OF tr nr]
  note g = updateTrackers_globals [OF tr]
  have z: "rewardPerToken s0 e = Inr (rewardPerTokenStored s0)"
    by (rule rewardPerToken_zero_stake) (simp add: s0_def empty)
  have a0: "activeStake (voterStakes t (msg_sender e)) = 0"
    using p(2) by (simp add: s0_def fresh unat_eq_0)
  have c0: "cumulativeActiveStake t = 0"
    using p(3) by (simp add: s0_def fresh empty unat_eq_0)
  have c1: "cumulativePendingStake t = 0"
    using p(4) by (simp add: s0_def fresh empty unat_eq_0)
  have "outstandingRewardsOf s0 e (msg_sender e) = Inr (outstandingRewards (voterStakes t (msg_sender e)))"
    by (rule updateTrackers_outstanding [OF tr nz])
  then have "outstandingRewards (voterStakes t (msg_sender e)) =
      outstandingRewards (voterStakes s0 (msg_sender e))"
    by (rule outstandingRewardsOf_no_stake) (simp_all add: s0_def fresh)
  then have o: "outstandingRewards (voterStakes t (msg_sender e)) = 0"
    by (simp add: s0_def fresh)
  have "settled t e (msg_sender e)" by (rule updateTrackers_settled [OF tr])
  with nz have pd: "rewardsPaidPerToken (voterStakes t (msg_sender e)) = rewardPerTokenStored t"
    by (simp add: settled_def)
  from g(5) z have rs: "rewardPerTokenStored t = rewardPerTokenStored s" by (simp add: s0_def)
  show "activeStake (voterStakes s1 (msg_sender e)) = amount" by (simp add: s1 a0)
  show "pendingStake (voterStakes s1 (msg_sender e)) = 0" by (simp add: s1 p(1))
  show "cumulativeActiveStake s1 = amount" by (simp add: s1 c0)
  show "cumulativePendingStake s1 = 0" by (simp add: s1 c1)
  show "outstandingRewards (voterStakes s1 (msg_sender e)) = 0" by (simp add: s1 o)
  show "rewardsPaidPerToken (voterStakes s1 (msg_sender e)) = rewardPerTokenStored s1"
    by (simp add: s1 pd)
  show "rewardPerTokenStored s1 = rewardPerTokenStored s" by (simp add: s1 rs)
  show "lastUpdateTime s1 = getCurrentTime e" by (simp add: s1 g(4))
  show "emissionRate s1 = emissionRate s" by (simp add: s1 g(1)) (simp add: s0_def)
qed

lemma scale_roundtrip: "(100 * ((n * 10 ^ 18) div 100)) div 10 ^ 18 = (n::nat)"
proof -
  have "n * 10 ^ 18 = (n * 10 ^ 16) * 100" by simp
  then have "(n * 10 ^ 18) div 100 = n * 10 ^ 16" by simp
  then show ?thesis by simp
qed

lemma scale_quotient: "(n * 10 ^ 18) div 100 = (n::nat) * 10 ^ 16"
proof -
  have "n * 10 ^ 18 = (n * 10 ^ 16) * 100" by simp
  then show ?thesis by simp
qed

lemma sole_staker_view:
  assumes own: "activeStake (voterStakes s1 v) = 100" "pendingStake (voterStakes s1 v) = 0"
      "outstandingRewards (voterStakes s1 v) = 0"
      "rewardsPaidPerToken (voterStakes s1 v) = rewardPerTokenStored s1"
    and total: "cumulativeActiveStake s1 = 100" "cumulativePendingStake s1 = 0"
    and time: "unat (getCurrentTime e2) = unat (lastUpdateTime s1) + unat dt"
    and view: "outstandingRewardsOf s1 e2 v = Inr owed"
  shows "unat owed = unat (emissionRate s1) * unat dt"
proof -
  from outstandingRewardsOf_unat [OF view] obtain rpt where
    r: "rewardPerToken s1 e2 = Inr rpt"
    and o: "unat owed = (100 * (unat rpt - unat (rewardPerTokenStored s1))) div 10 ^ 18"
    by (auto simp: own)
  have "unat rpt = unat (rewardPerTokenStored s1) +
      ((unat dt * unat (emissionRate s1)) * 10 ^ 18) div 100"
    using rewardPerToken_unat [OF r] by (simp add: total time)
  with o have "unat owed = (100 * (((unat dt * unat (emissionRate s1)) * 10 ^ 18) div 100)) div 10 ^ 18"
    by simp
  then show ?thesis by (simp only: scale_roundtrip mult.commute)
qed

lemma outstandingRewardsOf_succeeds:
  assumes "unat (activeStake (voterStakes s v)) + unat (pendingStake (voterStakes s v)) < 2 ^ 256"
    and "rewardPerToken s e = Inr rpt"
    and "rewardsPaidPerToken (voterStakes s v) \<le> rpt"
    and "(unat (activeStake (voterStakes s v)) + unat (pendingStake (voterStakes s v))) *
           (unat rpt - unat (rewardsPaidPerToken (voterStakes s v))) < 2 ^ 256"
    and "((unat (activeStake (voterStakes s v)) + unat (pendingStake (voterStakes s v))) *
           (unat rpt - unat (rewardsPaidPerToken (voterStakes s v)))) div 10 ^ 18 +
         unat (outstandingRewards (voterStakes s v)) < 2 ^ 256"
  shows "\<exists>owed. outstandingRewardsOf s e v = Inr owed"
proof -
  let ?staked = "activeStake (voterStakes s v) + pendingStake (voterStakes s v)"
  let ?unpaid = "rpt - rewardsPaidPerToken (voterStakes s v)"
  have a: "getVoterStake s v = Inr ?staked"
    using assms(1) by (simp add: getVoterStake_def add256_ok)
  have us: "unat ?staked =
      unat (activeStake (voterStakes s v)) + unat (pendingStake (voterStakes s v))"
    using assms(1) by (rule unat_plus)
  have uu: "unat ?unpaid = unat rpt - unat (rewardsPaidPerToken (voterStakes s v))"
    using assms(3) by (simp add: unat_sub)
  have m: "unat ?staked * unat ?unpaid < 2 ^ 256"
    using assms(4) by (simp add: us uu)
  have up: "unat (?staked * ?unpaid) = unat ?staked * unat ?unpaid"
    using m by (rule unat_times)
  have f: "unat ((?staked * ?unpaid) div 1000000000000000000) +
      unat (outstandingRewards (voterStakes s v)) < 2 ^ 256"
    using assms(5) by (simp add: unat_div up us uu)
  show ?thesis
    unfolding outstandingRewardsOf_def
    using assms(3) m f
    by (simp add: a assms(2) sub256_def mul256_ok div256_def add256_ok)
qed

lemma updateTrackers_succeeds:
  assumes "outstandingRewardsOf s e v = Inr owed" and "v \<noteq> 0"
    and "pendingStake (voterStakes s v) = 0"
  shows "\<exists>s1. updateTrackers s e v = Inr s1"
proof -
  from assms(1) obtain rpt where r: "rewardPerToken s e = Inr rpt"
    by (auto simp: outstandingRewardsOf_def bindR_eq_Inr)
  define s' where "s' = s\<lparr>rewardPerTokenStored := rpt, lastUpdateTime := getCurrentTime e,
      voterStakes := (voterStakes s)(v := (voterStakes s v)
        \<lparr>outstandingRewards := owed, rewardsPaidPerToken := rpt\<rparr>)\<rparr>"
  have u: "updateReward s e v = Inr s'"
    using assms(1,2)
    by (simp add: updateReward_def r Let_def outstandingRewardsOf_after_store [OF r] s'_def)
  have p: "pendingStake (voterStakes s' v) = 0" by (simp add: s'_def assms(3))
  have "\<exists>s1. updateActiveStake s' e v = Inr s1"
    by (simp add: updateActiveStake_def p add256_def sub256_def)
  with u show ?thesis by (auto simp: updateTrackers_def)
qed

lemma word_of_unat_product:
  fixes paid r dt :: uint256
  assumes "unat paid = unat r * unat dt"
  shows "paid = r * dt"
proof -
  have "paid = word_of_nat (unat paid)" by simp
  also have "\<dots> = word_of_nat (unat r * unat dt)" by (simp only: assms)
  also have "\<dots> = r * dt" by simp
  finally show ?thesis .
qed

section \<open>Evaluating the example ledgers\<close>

lemmas staker_defs =
  stake_def requestUnstake_def executeUnstake_def withdrawRewards_def exit_def
  setEmissionRate_def setUnstakeCoolDown_def onlyOwner_def
  updateTrackers_def updateReward_def updateActiveStake_def
  rewardPerToken_def outstandingRewardsOf_def getCumulativeStake_def getVoterStake_def
  add256_def sub256_def mul256_def div256_def require_def tokenDo_def Let_def
  constructor_def emptyVoterStake_def envAt_def transact_def

lemma oneStaker_eq:
  "oneStaker rate coolDown amount =
     \<lparr>emissionRate = rate, cumulativeActiveStake = amount, cumulativePendingStake = 0,
      rewardPerTokenStored = 0, lastUpdateTime = 1000, unstakeCoolDown = coolDown,
      voterStakes = (\<lambda>_. emptyVoterStake)(2 := emptyVoterStake\<lparr>activeStake := amount\<rparr>),
      delegateToStaker = (\<lambda>_. 0), owner = 1\<rparr>"
  by (simp add: oneStaker_def staker_defs)

lemma oneStaker_balanced: "ledgerBalanced (oneStaker rate coolDown amount)"
  unfolding oneStaker_def by (rule run_balanced [OF constructor_balanced])

lemma halfRequest_eq:
  "halfRequest =
     \<lparr>emissionRate = 5, cumulativeActiveStake = 50, cumulativePendingStake = 0,
      rewardPerTokenStored = 150000000000000000, lastUpdateTime = 1003, unstakeCoolDown = 10,
      voterStakes = (\<lambda>_. emptyVoterStake)(2 := emptyVoterStake
         \<lparr>activeStake := 50, pendingUnstake := 50, rewardsPaidPerToken := 150000000000000000,
          outstandingRewards := 15, unstakeRequestTime := 1003\<rparr>),
      delegateToStaker = (\<lambda>_. 0), owner = 1\<rparr>"
  by (simp add: halfRequest_def oneStaker_eq staker_defs)

lemma zeroRequest_eq:
  "zeroRequest =
     \<lparr>emissionRate = 5, cumulativeActiveStake = 100, cumulativePendingStake = 0,
      rewardPerTokenStored = 150000000000000000, lastUpdateTime = 1003, unstakeCoolDown = 10,
      voterStakes = (\<lambda>_. emptyVoterStake)(2 := emptyVoterStake
         \<lparr>activeStake := 100, rewardsPaidPerToken := 150000000000000000,
          outstandingRewards := 15, unstakeRequestTime := 1003\<rparr>),
      delegateToStaker = (\<lambda>_. 0), owner = 1\<rparr>"
  by (simp add: zeroRequest_def oneStaker_eq staker_defs)

lemma twoPending_eq:
  "twoPending =
     \<lparr>emissionRate = 5, cumulativeActiveStake = 0, cumulativePendingStake = 170,
      rewardPerTokenStored = 0, lastUpdateTime = 1000, unstakeCoolDown = 10,
      voterStakes = (\<lambda>_. emptyVoterStake)
        (2 := emptyVoterStake\<lparr>pendingStake := 100\<rparr>, 3 := emptyVoterStake\<lparr>pendingStake := 70\<rparr>),
      delegateToStaker = (\<lambda>_. 0), owner = 1\<rparr>"
  by (simp add: twoPending_def staker_defs)

lemma ownerPending_eq:
  "ownerPending =
     \<lparr>emissionRate = 5, cumulativeActiveStake = 0, cumulativePendingStake = 100,
      rewardPerTokenStored = 0, lastUpdateTime = 1000, unstakeCoolDown = 10,
      voterStakes = (\<lambda>_. emptyVoterStake)(2 := emptyVoterStake\<lparr>pendingStake := 100\<rparr>),
      delegateToStaker = (\<lambda>_. 0), owner = 2\<rparr>"
  by (simp add: ownerPending_def staker_defs)

section \<open>Claims\<close>

text \<open>
  C1. After every finite sequence of transactions (\<open>stake\<close>, \<open>requestUnstake\<close>,
  \<open>executeUnstake\<close>, \<open>withdrawRewards\<close>, \<open>exit\<close>, \<open>setEmissionRate\<close>,
  \<open>setUnstakeCoolDown\<close>, by any senders, at any times, in or out of the reveal phase,
  reverted or not) applied to the storage the constructor leaves, \<open>cumulativeActiveStake\<close>
  is the sum of the \<open>activeStake\<close> of all voters and \<open>cumulativePendingStake\<close> is the
  sum of their \<open>pendingStake\<close>.
\<close>

theorem cumulative_stake_is_sum_of_voter_stakes:
  "unat (cumulativeActiveStake (run (constructor deployer rate coolDown) txs)) =
     (\<Sum>v\<in>UNIV. unat (activeStake (voterStakes (run (constructor deployer rate coolDown) txs) v))) \<and>
   unat (cumulativePendingStake (run (constructor deployer rate coolDown) txs)) =
     (\<Sum>v\<in>UNIV. unat (pendingStake (voterStakes (run (constructor deployer rate coolDown) txs) v)))"
  using run_balanced [OF constructor_balanced, of deployer rate coolDown txs]
  by (simp add: ledgerBalanced_def sumActiveStake_def sumPendingStake_def)

text \<open>
  C2. \<open>rewardPerTokenStored\<close> never decreases: not across one transaction (whatever the
  operation, the sender, the reveal flag and the current time, and whether or not the call
  reverts) and so not across any sequence of transactions. This holds from every storage,
  reachable or not; a call at a time before \<open>lastUpdateTime\<close> reverts in the checked
  subtraction and leaves the accumulator as it was.
\<close>

theorem rewardPerTokenStored_never_decreases:
  "rewardPerTokenStored s \<le> rewardPerTokenStored (transact s tx) \<and>
   rewardPerTokenStored s \<le> rewardPerTokenStored (run s txs)"
proof
  show "rewardPerTokenStored s \<le> rewardPerTokenStored (transact s tx)"
    by (rule transact_stored)
  show "rewardPerTokenStored s \<le> rewardPerTokenStored (run s txs)"
  proof (induction txs arbitrary: s)
    case Nil
    show ?case by simp
  next
    case (Cons tx txs)
    have "rewardPerTokenStored s \<le> rewardPerTokenStored (transact s tx)"
      by (rule transact_stored)
    also have "\<dots> \<le> rewardPerTokenStored (run (transact s tx) txs)"
      by (rule Cons.IH)
    finally show ?case by simp
  qed
qed

text \<open>
  C3. When the total stake \<open>cumulativeActiveStake + cumulativePendingStake\<close> is zero,
  \<open>rewardPerToken\<close> returns \<open>rewardPerTokenStored\<close> unchanged, for every current time
  and emission rate, so that a settlement (\<open>_updateReward\<close>) then stores the accumulator
  it found; and in no storage at all does \<open>rewardPerToken\<close> abort with a
  division by zero, that is, the division by the total stake is never run on a zero divisor.
\<close>

theorem zero_total_stake_freezes_accumulator:
  "(unat (cumulativeActiveStake s) + unat (cumulativePendingStake s) = 0 \<longrightarrow>
      rewardPerToken s e = Inr (rewardPerTokenStored s) \<and>
      (\<forall>v s1. updateReward s e v = Inr s1 \<longrightarrow> rewardPerTokenStored s1 = rewardPerTokenStored s)) \<and>
   rewardPerToken s e \<noteq> Inl DivisionByZeroPanic"
proof (intro conjI impI allI)
  assume z: "unat (cumulativeActiveStake s) + unat (cumulativePendingStake s) = 0"
  then show r: "rewardPerToken s e = Inr (rewardPerTokenStored s)"
    by (rule rewardPerToken_zero_stake)
  fix v s1
  assume "updateReward s e v = Inr s1"
  then have "rewardPerToken s e = Inr (rewardPerTokenStored s1)"
    by (rule updateReward_globals(7))
  with r show "rewardPerTokenStored s1 = rewardPerTokenStored s" by simp
next
  show "rewardPerToken s e \<noteq> Inl DivisionByZeroPanic"
    by (rule rewardPerToken_no_division_by_zero)
qed

theorem zero_total_stake_witness:
  "unat (cumulativeActiveStake (constructor 1 (2 ^ 200) 10)) +
     unat (cumulativePendingStake (constructor 1 (2 ^ 200) 10)) = 0 \<and>
   rewardPerToken (constructor 1 (2 ^ 200) 10) (envAt 2 123456789 False) =
     Inr (rewardPerTokenStored (constructor 1 (2 ^ 200) 10)) \<and>
   rewardPerToken (constructor 1 (2 ^ 200) 10) (envAt 2 123456789 False) \<noteq> Inl DivisionByZeroPanic"
proof -
  have z: "unat (cumulativeActiveStake (constructor 1 (2 ^ 200) 10)) +
     unat (cumulativePendingStake (constructor 1 (2 ^ 200) 10)) = 0"
    by (simp add: constructor_def)
  with zero_total_stake_freezes_accumulator
    [of "constructor 1 (2 ^ 200) 10" "envAt 2 123456789 False"]
  show ?thesis by blast
qed

text \<open>
  C4, as amended. In a storage where the cumulative counters equal the sums of the voters'
  stakes (every reachable storage, by C1), \<open>requestUnstake(amount)\<close> fails if and only if
  the call is made in the reveal phase, or the settlement and promotion done first abort (a
  checked-arithmetic panic), or \<open>amount\<close> exceeds the voter's \<open>activeStake\<close> after
  settlement and promotion, or the voter's \<open>pendingUnstake\<close> is not zero. A failed call
  leaves the storage as it was. A successful call, relative to the storage after settlement
  and promotion, moves \<open>amount\<close> from \<open>activeStake\<close> to \<open>pendingUnstake\<close>, lowers
  \<open>cumulativeActiveStake\<close> by \<open>amount\<close>, sets \<open>unstakeRequestTime\<close> to the current time,
  leaves \<open>pendingStake\<close> and \<open>cumulativePendingStake\<close> as they are, touches no other
  voter and calls the token not at all.
\<close>

theorem requestUnstake_fails_iff_and_effect:
  assumes "ledgerBalanced s"
  shows "((\<exists>err. requestUnstake s e amount = Inl err) \<longleftrightarrow>
            inActiveReveal e \<or>
            (\<exists>err. updateTrackers s e (msg_sender e) = Inl err) \<or>
            (\<exists>s1. updateTrackers s e (msg_sender e) = Inr s1 \<and>
               (activeStake (voterStakes s1 (msg_sender e)) < amount \<or>
                pendingUnstake (voterStakes s1 (msg_sender e)) \<noteq> 0))) \<and>
         ((\<exists>err. requestUnstake s e amount = Inl err) \<longrightarrow>
            transact s (e, RequestUnstake amount) = s) \<and>
         (requestUnstake s e amount = Inr (s', calls) \<longrightarrow>
            (\<exists>s1. updateTrackers s e (msg_sender e) = Inr s1 \<and>
               unat (activeStake (voterStakes s' (msg_sender e))) + unat amount =
                 unat (activeStake (voterStakes s1 (msg_sender e))) \<and>
               pendingUnstake (voterStakes s1 (msg_sender e)) = 0 \<and>
               pendingUnstake (voterStakes s' (msg_sender e)) = amount \<and>
               unat (cumulativeActiveStake s') + unat amount = unat (cumulativeActiveStake s1) \<and>
               unstakeRequestTime (voterStakes s' (msg_sender e)) = getCurrentTime e \<and>
               pendingStake (voterStakes s' (msg_sender e)) =
                 pendingStake (voterStakes s1 (msg_sender e)) \<and>
               cumulativePendingStake s' = cumulativePendingStake s1 \<and>
               (\<forall>u. u \<noteq> msg_sender e \<longrightarrow> voterStakes s' u = voterStakes s u) \<and>
               calls = []))"
proof (intro conjI impI)
  show "(\<exists>err. requestUnstake s e amount = Inl err) \<longleftrightarrow>
            inActiveReveal e \<or>
            (\<exists>err. updateTrackers s e (msg_sender e) = Inl err) \<or>
            (\<exists>s1. updateTrackers s e (msg_sender e) = Inr s1 \<and>
               (activeStake (voterStakes s1 (msg_sender e)) < amount \<or>
                pendingUnstake (voterStakes s1 (msg_sender e)) \<noteq> 0))"
  proof (cases "updateTrackers s e (msg_sender e)")
    case (Inl err)
    then show ?thesis
      by (auto simp: sum_fails_iff requestUnstake_eq_Inr)
  next
    case (Inr s1)
    have "ledgerBalanced s1" by (rule updateTrackers_balanced [OF Inr assms])
    then have "activeStake (voterStakes s1 (msg_sender e)) \<le> cumulativeActiveStake s1"
      by (rule active_le_cumulative)
    then have "amount \<le> activeStake (voterStakes s1 (msg_sender e)) \<Longrightarrow>
        amount \<le> cumulativeActiveStake s1"
      by simp
    with Inr show ?thesis
      by (auto simp: sum_fails_iff requestUnstake_eq_Inr not_less)
  qed
next
  assume "\<exists>err. requestUnstake s e amount = Inl err"
  then show "transact s (e, RequestUnstake amount) = s"
    by (auto simp: transact_def)
next
  assume ok: "requestUnstake s e amount = Inr (s', calls)"
  then obtain s1 where
    t: "updateTrackers s e (msg_sender e) = Inr s1" and
    le: "amount \<le> activeStake (voterStakes s1 (msg_sender e))" "amount \<le> cumulativeActiveStake s1" and
    pu: "pendingUnstake (voterStakes s1 (msg_sender e)) = 0" and
    s': "s' = s1\<lparr>cumulativeActiveStake := cumulativeActiveStake s1 - amount,
                voterStakes := (voterStakes s1)
                  (msg_sender e := (voterStakes s1 (msg_sender e))
                     \<lparr>activeStake := activeStake (voterStakes s1 (msg_sender e)) - amount,
                      pendingUnstake := amount,
                      unstakeRequestTime := getCurrentTime e\<rparr>)\<rparr>" and
    c: "calls = []"
    by (auto simp: requestUnstake_eq_Inr)
  show "\<exists>s1. updateTrackers s e (msg_sender e) = Inr s1 \<and>
               unat (activeStake (voterStakes s' (msg_sender e))) + unat amount =
                 unat (activeStake (voterStakes s1 (msg_sender e))) \<and>
               pendingUnstake (voterStakes s1 (msg_sender e)) = 0 \<and>
               pendingUnstake (voterStakes s' (msg_sender e)) = amount \<and>
               unat (cumulativeActiveStake s') + unat amount = unat (cumulativeActiveStake s1) \<and>
               unstakeRequestTime (voterStakes s' (msg_sender e)) = getCurrentTime e \<and>
               pendingStake (voterStakes s' (msg_sender e)) =
                 pendingStake (voterStakes s1 (msg_sender e)) \<and>
               cumulativePendingStake s' = cumulativePendingStake s1 \<and>
               (\<forall>u. u \<noteq> msg_sender e \<longrightarrow> voterStakes s' u = voterStakes s u) \<and>
               calls = []"
    using t pu c unat_minus [OF le(1)] unat_minus [OF le(2)] updateTrackers_voters(3) [OF t]
    by (intro exI [of _ s1]) (simp add: s')
qed

theorem requestUnstake_witness:
  "ledgerBalanced (oneStaker 5 10 100) \<and>
   (\<exists>s1. updateTrackers (oneStaker 5 10 100) (envAt 2 1003 False) 2 = Inr s1 \<and>
      activeStake (voterStakes s1 2) = 100 \<and> cumulativeActiveStake s1 = 100) \<and>
   (\<exists>s'. requestUnstake (oneStaker 5 10 100) (envAt 2 1003 False) 50 = Inr (s', []) \<and>
      activeStake (voterStakes s' 2) = 50 \<and> pendingUnstake (voterStakes s' 2) = 50 \<and>
      cumulativeActiveStake s' = 50 \<and> unstakeRequestTime (voterStakes s' 2) = 1003 \<and>
      (\<exists>err. requestUnstake s' (envAt 2 1004 False) 10 = Inl err))"
proof -
  have b: "ledgerBalanced (oneStaker 5 10 100)" by (rule oneStaker_balanced)
  obtain s' where r: "requestUnstake (oneStaker 5 10 100) (envAt 2 1003 False) 50 = Inr (s', [])"
    by (simp add: oneStaker_eq staker_defs)
  have b': "ledgerBalanced s'" by (rule requestUnstake_balanced [OF r b])
  have f: "activeStake (voterStakes s' 2) = 50 \<and> pendingUnstake (voterStakes s' 2) = 50 \<and>
      cumulativeActiveStake s' = 50 \<and> unstakeRequestTime (voterStakes s' 2) = 1003 \<and>
      pendingStake (voterStakes s' 2) = 0 \<and> cumulativePendingStake s' = 0
      \<and> emissionRate s' = 5 \<and> lastUpdateTime s' = 1003 \<and> rewardPerTokenStored s' = 150000000000000000
      \<and> rewardsPaidPerToken (voterStakes s' 2) = 150000000000000000 \<and> outstandingRewards (voterStakes s' 2) = 15"
    using r by (auto simp add: oneStaker_eq staker_defs)
  have t: "\<exists>s1. updateTrackers (oneStaker 5 10 100) (envAt 2 1003 False) 2 = Inr s1 \<and>
      activeStake (voterStakes s1 2) = 100 \<and> cumulativeActiveStake s1 = 100"
    by (simp add: oneStaker_eq staker_defs)
  have "\<exists>s1. updateTrackers s' (envAt 2 1004 False) (msg_sender (envAt 2 1004 False)) = Inr s1 \<and>
     pendingUnstake (voterStakes s1 (msg_sender (envAt 2 1004 False))) \<noteq> 0"
    using f by (simp add: staker_defs)
  then have "\<exists>err. requestUnstake s' (envAt 2 1004 False) 10 = Inl err"
    using requestUnstake_fails_iff_and_effect [OF b', of "envAt 2 1004 False" 10] by blast
  with b t r f show ?thesis by blast
qed

text \<open>
  C4 as first stated does not hold: with an emission rate of \<open>2 ^ 200\<close>, one second after
  the only voter staked 100, their \<open>requestUnstake(50)\<close> outside the reveal phase, with 100
  active, nothing pending and no earlier request, aborts in the checked multiplication
  \<open>elapsed * emissionRate * 1e18\<close> of the settlement.
\<close>

theorem requestUnstake_overflow_counterexample:
  "requestUnstake (oneStaker (2 ^ 200) 0 100) (envAt 2 1001 False) 50 = Inl ArithmeticPanic \<and>
   \<not> inActiveReveal (envAt 2 1001 False) \<and>
   activeStake (voterStakes (oneStaker (2 ^ 200) 0 100) 2) = 100 \<and>
   pendingStake (voterStakes (oneStaker (2 ^ 200) 0 100) 2) = 0 \<and>
   pendingUnstake (voterStakes (oneStaker (2 ^ 200) 0 100) 2) = 0"
  by (simp add: oneStaker_eq staker_defs)

text \<open>
  C5, as amended. \<open>executeUnstake()\<close> fails, leaving the storage as it was, unless
  \<open>unstakeRequestTime\<close> is not zero and the current time is at least
  \<open>unstakeRequestTime + unstakeCoolDown\<close>. When that condition holds, the voter's
  \<open>pendingUnstake\<close> is not zero, settlement and promotion complete and the token carries
  out the transfer, the call transfers \<open>pendingUnstake\<close> to the caller and sets both
  \<open>pendingUnstake\<close> and \<open>unstakeRequestTime\<close> to zero, leaving the stakes and the
  cumulative counters as settlement left them; any further \<open>executeUnstake()\<close> by the
  same voter then fails and transfers nothing, until a new request is made. After a
  successful \<open>requestUnstake\<close>, an \<open>executeUnstake()\<close> by the same voter before the
  cooldown has elapsed fails.
\<close>

theorem executeUnstake_once_per_request:
  "(\<not> (unstakeRequestTime (voterStakes s (msg_sender e)) \<noteq> 0 \<and>
        unat (unstakeRequestTime (voterStakes s (msg_sender e))) + unat (unstakeCoolDown s)
          \<le> unat (getCurrentTime e)) \<longrightarrow>
      (\<exists>err. executeUnstake s e = Inl err) \<and> transact s (e, ExecuteUnstake) = s) \<and>
   (unstakeRequestTime (voterStakes s (msg_sender e)) \<noteq> 0 \<and>
    unat (unstakeRequestTime (voterStakes s (msg_sender e))) + unat (unstakeCoolDown s)
      \<le> unat (getCurrentTime e) \<and>
    pendingUnstake (voterStakes s (msg_sender e)) \<noteq> 0 \<and>
    updateTrackers s e (msg_sender e) = Inr s1 \<and>
    tokenAccepts e (Transfer (msg_sender e) (pendingUnstake (voterStakes s (msg_sender e)))) \<longrightarrow>
      (\<exists>s'. executeUnstake s e =
                Inr (s', [Transfer (msg_sender e) (pendingUnstake (voterStakes s (msg_sender e)))]) \<and>
            pendingUnstake (voterStakes s' (msg_sender e)) = 0 \<and>
            unstakeRequestTime (voterStakes s' (msg_sender e)) = 0 \<and>
            activeStake (voterStakes s' (msg_sender e)) = activeStake (voterStakes s1 (msg_sender e)) \<and>
            pendingStake (voterStakes s' (msg_sender e)) = pendingStake (voterStakes s1 (msg_sender e)) \<and>
            cumulativeActiveStake s' = cumulativeActiveStake s1 \<and>
            cumulativePendingStake s' = cumulativePendingStake s1 \<and>
            (\<forall>e'. msg_sender e' = msg_sender e \<longrightarrow>
               (\<exists>err. executeUnstake s' e' = Inl err) \<and> transact s' (e', ExecuteUnstake) = s'))) \<and>
   (requestUnstake s0 e0 amount = Inr (s, calls0) \<and> msg_sender e = msg_sender e0 \<and>
    unat (getCurrentTime e) < unat (getCurrentTime e0) + unat (unstakeCoolDown s0) \<longrightarrow>
      (\<exists>err. executeUnstake s e = Inl err) \<and> transact s (e, ExecuteUnstake) = s)"
proof (intro conjI impI)
  assume "\<not> (unstakeRequestTime (voterStakes s (msg_sender e)) \<noteq> 0 \<and>
        unat (unstakeRequestTime (voterStakes s (msg_sender e))) + unat (unstakeCoolDown s)
          \<le> unat (getCurrentTime e))"
  then have f: "\<exists>err. executeUnstake s e = Inl err" by (rule executeUnstake_not_ready)
  then show "\<exists>err. executeUnstake s e = Inl err" .
  from f show "transact s (e, ExecuteUnstake) = s" by (auto simp: transact_def)
next
  assume a: "unstakeRequestTime (voterStakes s (msg_sender e)) \<noteq> 0 \<and>
    unat (unstakeRequestTime (voterStakes s (msg_sender e))) + unat (unstakeCoolDown s)
      \<le> unat (getCurrentTime e) \<and>
    pendingUnstake (voterStakes s (msg_sender e)) \<noteq> 0 \<and>
    updateTrackers s e (msg_sender e) = Inr s1 \<and>
    tokenAccepts e (Transfer (msg_sender e) (pendingUnstake (voterStakes s (msg_sender e))))"
  then have t: "updateTrackers s e (msg_sender e) = Inr s1" by simp
  note v = updateTrackers_voters [OF t] and g = updateTrackers_globals [OF t]
  define s' where "s' = s1\<lparr>voterStakes := (voterStakes s1)
                    (msg_sender e := (voterStakes s1 (msg_sender e))
                       \<lparr>pendingUnstake := 0, unstakeRequestTime := 0\<rparr>)\<rparr>"
  have pos: "0 < pendingUnstake (voterStakes s1 (msg_sender e))"
    using a by (simp add: v(1) word_greater_zero_iff)
  have ex: "executeUnstake s e =
      Inr (s', [Transfer (msg_sender e) (pendingUnstake (voterStakes s (msg_sender e)))])"
    unfolding executeUnstake_eq_Inr
    using a pos by (intro exI [of _ s1]) (simp add: v(1,2) g(2) s'_def)
  have again: "(\<exists>err. executeUnstake s' e' = Inl err) \<and> transact s' (e', ExecuteUnstake) = s'"
    if "msg_sender e' = msg_sender e" for e'
  proof -
    have "unstakeRequestTime (voterStakes s' (msg_sender e')) = 0"
      using that by (simp add: s'_def)
    then have f: "\<exists>err. executeUnstake s' e' = Inl err"
      by (intro executeUnstake_not_ready) simp
    then show ?thesis by (auto simp: transact_def)
  qed
  show "\<exists>s'. executeUnstake s e =
                Inr (s', [Transfer (msg_sender e) (pendingUnstake (voterStakes s (msg_sender e)))]) \<and>
            pendingUnstake (voterStakes s' (msg_sender e)) = 0 \<and>
            unstakeRequestTime (voterStakes s' (msg_sender e)) = 0 \<and>
            activeStake (voterStakes s' (msg_sender e)) = activeStake (voterStakes s1 (msg_sender e)) \<and>
            pendingStake (voterStakes s' (msg_sender e)) = pendingStake (voterStakes s1 (msg_sender e)) \<and>
            cumulativeActiveStake s' = cumulativeActiveStake s1 \<and>
            cumulativePendingStake s' = cumulativePendingStake s1 \<and>
            (\<forall>e'. msg_sender e' = msg_sender e \<longrightarrow>
               (\<exists>err. executeUnstake s' e' = Inl err) \<and> transact s' (e', ExecuteUnstake) = s')"
    using ex again by (intro exI [of _ s']) (simp add: s'_def)
next
  assume a: "requestUnstake s0 e0 amount = Inr (s, calls0) \<and> msg_sender e = msg_sender e0 \<and>
    unat (getCurrentTime e) < unat (getCurrentTime e0) + unat (unstakeCoolDown s0)"
  then obtain s1 where t: "updateTrackers s0 e0 (msg_sender e0) = Inr s1"
    and s: "s = s1\<lparr>cumulativeActiveStake := cumulativeActiveStake s1 - amount,
                voterStakes := (voterStakes s1)
                  (msg_sender e0 := (voterStakes s1 (msg_sender e0))
                     \<lparr>activeStake := activeStake (voterStakes s1 (msg_sender e0)) - amount,
                      pendingUnstake := amount,
                      unstakeRequestTime := getCurrentTime e0\<rparr>)\<rparr>"
    by (auto simp: requestUnstake_eq_Inr)
  have "unstakeRequestTime (voterStakes s (msg_sender e)) = getCurrentTime e0"
    and "unstakeCoolDown s = unstakeCoolDown s0"
    using a by (simp_all add: s updateTrackers_globals(2) [OF t])
  with a have f: "\<exists>err. executeUnstake s e = Inl err"
    by (intro executeUnstake_not_ready) simp
  then show "\<exists>err. executeUnstake s e = Inl err" .
  from f show "transact s (e, ExecuteUnstake) = s" by (auto simp: transact_def)
qed

theorem executeUnstake_witness:
  "requestUnstake (oneStaker 5 10 100) (envAt 2 1003 False) 50 = Inr (halfRequest, []) \<and>
   unstakeRequestTime (voterStakes halfRequest 2) = 1003 \<and>
   unstakeCoolDown halfRequest = 10 \<and>
   pendingUnstake (voterStakes halfRequest 2) = 50 \<and>
   executeUnstake halfRequest (envAt 2 1012 False) = Inl (Revert ''Unstake time not passed'') \<and>
   executeUnstake halfRequest (envAt 2 1013 False) =
     Inr (transact halfRequest (envAt 2 1013 False, ExecuteUnstake), [Transfer 2 50]) \<and>
   pendingUnstake (voterStakes (transact halfRequest (envAt 2 1013 False, ExecuteUnstake)) 2) = 0 \<and>
   unstakeRequestTime (voterStakes (transact halfRequest (envAt 2 1013 False, ExecuteUnstake)) 2) = 0 \<and>
   (\<exists>err. executeUnstake (transact halfRequest (envAt 2 1013 False, ExecuteUnstake))
            (envAt 2 1013 False) = Inl err)"
proof -
  let ?e = "envAt 2 1013 False"
  have r: "requestUnstake (oneStaker 5 10 100) (envAt 2 1003 False) 50 = Inr (halfRequest, [])"
    by (simp add: halfRequest_eq oneStaker_eq staker_defs)
  have early: "executeUnstake halfRequest (envAt 2 1012 False) = Inl (Revert ''Unstake time not passed'')"
    by (simp add: halfRequest_eq staker_defs)
  have x: "executeUnstake halfRequest ?e =
      Inr (transact halfRequest (?e, ExecuteUnstake), [Transfer 2 50])"
    by (simp add: halfRequest_eq staker_defs)
  obtain s1 where t: "updateTrackers halfRequest ?e (msg_sender ?e) = Inr s1"
    by (simp add: halfRequest_eq staker_defs)
  have pre: "unstakeRequestTime (voterStakes halfRequest (msg_sender ?e)) \<noteq> 0 \<and>
      unat (unstakeRequestTime (voterStakes halfRequest (msg_sender ?e))) + unat (unstakeCoolDown halfRequest)
        \<le> unat (getCurrentTime ?e) \<and>
      pendingUnstake (voterStakes halfRequest (msg_sender ?e)) \<noteq> 0 \<and>
      tokenAccepts ?e (Transfer (msg_sender ?e) (pendingUnstake (voterStakes halfRequest (msg_sender ?e))))"
    by (simp add: halfRequest_eq envAt_def emptyVoterStake_def)
  from executeUnstake_once_per_request [of halfRequest ?e s1] pre t
  obtain s' where s': "executeUnstake halfRequest ?e =
        Inr (s', [Transfer (msg_sender ?e) (pendingUnstake (voterStakes halfRequest (msg_sender ?e)))])"
    and z: "pendingUnstake (voterStakes s' (msg_sender ?e)) = 0"
       "unstakeRequestTime (voterStakes s' (msg_sender ?e)) = 0"
    and again: "\<exists>err. executeUnstake s' ?e = Inl err"
    by blast
  from s' x have eq: "s' = transact halfRequest (?e, ExecuteUnstake)" by simp
  have m: "msg_sender ?e = 2" by (simp add: envAt_def)
  from r early x z again show ?thesis
    unfolding eq m by (simp add: halfRequest_eq emptyVoterStake_def)
qed

text \<open>
  C5 as first stated does not hold. A call whose condition is not met does not return (with
  zero or anything else): it is reverted by the \<open>require\<close>, as the call one second before
  the end of the cooldown shows. And for a request of zero tokens the rest fails: after
  \<open>requestUnstake(0)\<close> at time 1003 with a cooldown of 10, \<open>executeUnstake()\<close> at time
  1013 succeeds, makes no transfer and leaves \<open>unstakeRequestTime\<close> at 1003 (it is reset
  only when \<open>tokensToSend > 0\<close>), and the same call made again succeeds again.
\<close>

theorem executeUnstake_zero_request_counterexample:
  "executeUnstake halfRequest (envAt 2 1012 False) = Inl (Revert ''Unstake time not passed'') \<and>
   unstakeRequestTime (voterStakes zeroRequest 2) = 1003 \<and>
   unstakeCoolDown zeroRequest = 10 \<and>
   executeUnstake zeroRequest (envAt 2 1013 False) =
     Inr (transact zeroRequest (envAt 2 1013 False, ExecuteUnstake), []) \<and>
   unstakeRequestTime (voterStakes (transact zeroRequest (envAt 2 1013 False, ExecuteUnstake)) 2) = 1003 \<and>
   executeUnstake (transact zeroRequest (envAt 2 1013 False, ExecuteUnstake)) (envAt 2 1013 False) =
     Inr (transact zeroRequest (envAt 2 1013 False, ExecuteUnstake), [])"
  by (simp add: zeroRequest_eq halfRequest_eq staker_defs)

text \<open>
  C6, as amended. \<open>exit()\<close> is \<open>executeUnstake()\<close> followed by \<open>withdrawRewards()\<close>
  inside one call: it succeeds exactly when \<open>executeUnstake()\<close> succeeds and the
  \<open>withdrawRewards()\<close> that follows succeeds, and then has the effect of both. When the
  unstake condition is not met (no request, or the cooldown has not elapsed) the whole
  \<open>exit()\<close> reverts and no reward is withdrawn. When \<open>executeUnstake()\<close> succeeds and
  nothing is owed, the withdrawal does nothing and \<open>exit()\<close> is that \<open>executeUnstake()\<close>;
  when rewards are owed, they are minted if the token carries out the mint, and otherwise
  the whole \<open>exit()\<close> reverts, the unstake included.
\<close>

theorem exit_is_atomic:
  "(exit s e = Inr (s2, calls) \<longleftrightarrow>
      (\<exists>s1 calls1 paid calls2. executeUnstake s e = Inr (s1, calls1) \<and>
         withdrawRewards s1 e = Inr (paid, s2, calls2) \<and> calls = calls1 @ calls2)) \<and>
   (\<not> (unstakeRequestTime (voterStakes s (msg_sender e)) \<noteq> 0 \<and>
        unat (unstakeRequestTime (voterStakes s (msg_sender e))) + unat (unstakeCoolDown s)
          \<le> unat (getCurrentTime e)) \<longrightarrow>
      (\<exists>err. exit s e = Inl err) \<and> transact s (e, Exit) = s) \<and>
   (executeUnstake s e = Inr (s1, calls1) \<and> outstandingRewards (voterStakes s1 (msg_sender e)) = 0 \<longrightarrow>
      exit s e = Inr (s1, calls1)) \<and>
   (executeUnstake s e = Inr (s1, calls1) \<and> outstandingRewards (voterStakes s1 (msg_sender e)) \<noteq> 0 \<and>
    tokenAccepts e (Mint (msg_sender e) (outstandingRewards (voterStakes s1 (msg_sender e)))) \<longrightarrow>
      exit s e =
        Inr (s1\<lparr>voterStakes := (voterStakes s1)
                 (msg_sender e := (voterStakes s1 (msg_sender e))\<lparr>outstandingRewards := 0\<rparr>)\<rparr>,
             calls1 @ [Mint (msg_sender e) (outstandingRewards (voterStakes s1 (msg_sender e)))])) \<and>
   (executeUnstake s e = Inr (s1, calls1) \<and> outstandingRewards (voterStakes s1 (msg_sender e)) \<noteq> 0 \<and>
    \<not> tokenAccepts e (Mint (msg_sender e) (outstandingRewards (voterStakes s1 (msg_sender e)))) \<longrightarrow>
      (\<exists>err. exit s e = Inl err) \<and> transact s (e, Exit) = s)"
proof -
  have settled1: "updateTrackers s1 e (msg_sender e) = Inr s1"
    if x: "executeUnstake s e = Inr (s1, calls1)" for s1 calls1
  proof -
    from x obtain st where t: "updateTrackers s e (msg_sender e) = Inr st"
      and s1: "s1 = st \<or> s1 = st\<lparr>voterStakes := (voterStakes st)
                    (msg_sender e := (voterStakes st (msg_sender e))
                       \<lparr>pendingUnstake := 0, unstakeRequestTime := 0\<rparr>)\<rparr>"
      by (auto simp: executeUnstake_eq_Inr split: if_splits)
    have "settled st e (msg_sender e)" by (rule updateTrackers_settled [OF t])
    with s1 have "settled s1 e (msg_sender e)" by (auto simp: settled_def)
    then show ?thesis by (rule settled_updateTrackers)
  qed
  have a: "exit s e = Inr (s2, calls) \<longleftrightarrow>
      (\<exists>s1 calls1 paid calls2. executeUnstake s e = Inr (s1, calls1) \<and>
         withdrawRewards s1 e = Inr (paid, s2, calls2) \<and> calls = calls1 @ calls2)"
    by (rule exit_eq_Inr)
  have b: "(\<exists>err. exit s e = Inl err) \<and> transact s (e, Exit) = s"
    if "\<not> (unstakeRequestTime (voterStakes s (msg_sender e)) \<noteq> 0 \<and>
        unat (unstakeRequestTime (voterStakes s (msg_sender e))) + unat (unstakeCoolDown s)
          \<le> unat (getCurrentTime e))"
  proof -
    from that obtain err where "executeUnstake s e = Inl err"
      using executeUnstake_not_ready by blast
    then have "exit s e = Inl err" by (simp add: exit_def)
    then show ?thesis by (simp add: transact_def)
  qed
  have c: "exit s e = Inr (s1, calls1)"
    if "executeUnstake s e = Inr (s1, calls1) \<and> outstandingRewards (voterStakes s1 (msg_sender e)) = 0"
  proof -
    from that settled1 have "withdrawRewards s1 e = Inr (0, s1, [])"
      by (auto simp: withdrawRewards_eq_Inr)
    with that show ?thesis by (simp add: exit_def)
  qed
  have d: "exit s e =
        Inr (s1\<lparr>voterStakes := (voterStakes s1)
                 (msg_sender e := (voterStakes s1 (msg_sender e))\<lparr>outstandingRewards := 0\<rparr>)\<rparr>,
             calls1 @ [Mint (msg_sender e) (outstandingRewards (voterStakes s1 (msg_sender e)))])"
    if "executeUnstake s e = Inr (s1, calls1) \<and> outstandingRewards (voterStakes s1 (msg_sender e)) \<noteq> 0 \<and>
      tokenAccepts e (Mint (msg_sender e) (outstandingRewards (voterStakes s1 (msg_sender e))))"
  proof -
    from that settled1 have "withdrawRewards s1 e =
        Inr (outstandingRewards (voterStakes s1 (msg_sender e)),
             s1\<lparr>voterStakes := (voterStakes s1)
                 (msg_sender e := (voterStakes s1 (msg_sender e))\<lparr>outstandingRewards := 0\<rparr>)\<rparr>,
             [Mint (msg_sender e) (outstandingRewards (voterStakes s1 (msg_sender e)))])"
      by (auto simp: withdrawRewards_eq_Inr word_greater_zero_iff)
    with that show ?thesis by (simp add: exit_def)
  qed
  have f: "(\<exists>err. exit s e = Inl err) \<and> transact s (e, Exit) = s"
    if "executeUnstake s e = Inr (s1, calls1) \<and> outstandingRewards (voterStakes s1 (msg_sender e)) \<noteq> 0 \<and>
      \<not> tokenAccepts e (Mint (msg_sender e) (outstandingRewards (voterStakes s1 (msg_sender e))))"
  proof -
    have "withdrawRewards s1 e \<noteq> Inr y" for y
      using that settled1 [of s1 calls1]
      by (cases y) (auto simp: withdrawRewards_eq_Inr word_greater_zero_iff)
    then obtain err where "withdrawRewards s1 e = Inl err"
      by (cases "withdrawRewards s1 e") auto
    with that have "exit s e = Inl err" by (simp add: exit_def)
    then show ?thesis by (simp add: transact_def)
  qed
  from a b c d f show ?thesis by blast
qed

theorem exit_witness:
  "executeUnstake halfRequest (envAt 2 1013 False) =
     Inr (transact halfRequest (envAt 2 1013 False, ExecuteUnstake), [Transfer 2 50]) \<and>
   outstandingRewards (voterStakes (transact halfRequest (envAt 2 1013 False, ExecuteUnstake)) 2) = 65 \<and>
   exit halfRequest (envAt 2 1013 False) =
     Inr (transact halfRequest (envAt 2 1013 False, Exit), [Transfer 2 50, Mint 2 65]) \<and>
   outstandingRewards (voterStakes (transact halfRequest (envAt 2 1013 False, Exit)) 2) = 0 \<and>
   unat (unstakeRequestTime (voterStakes halfRequest 2)) + unat (unstakeCoolDown halfRequest) = 1013 \<and>
   exit halfRequest (envAt 2 1012 False) = Inl (Revert ''Unstake time not passed'') \<and>
   transact halfRequest (envAt 2 1012 False, Exit) = halfRequest"
proof -
  let ?e = "envAt 2 1013 False"
  let ?s1 = "transact halfRequest (?e, ExecuteUnstake)"
  have m: "msg_sender ?e = 2" by (simp add: envAt_def)
  have x: "executeUnstake halfRequest ?e = Inr (?s1, [Transfer 2 50])"
    by (simp add: halfRequest_eq staker_defs)
  have o: "outstandingRewards (voterStakes ?s1 2) = 65"
    by (simp add: halfRequest_eq staker_defs)
  have acc: "tokenAccepts ?e (Mint 2 65)" by (simp add: envAt_def)
  have "exit halfRequest ?e =
      Inr (?s1\<lparr>voterStakes := (voterStakes ?s1)(2 := (voterStakes ?s1 2)\<lparr>outstandingRewards := 0\<rparr>)\<rparr>,
           [Transfer 2 50] @ [Mint 2 65])"
    using exit_is_atomic [of halfRequest ?e _ _ ?s1 "[Transfer 2 50]"] x o acc
    unfolding m by simp
  moreover have "?s1\<lparr>voterStakes := (voterStakes ?s1)(2 := (voterStakes ?s1 2)\<lparr>outstandingRewards := 0\<rparr>)\<rparr>
      = transact halfRequest (?e, Exit)"
    by (simp add: halfRequest_eq staker_defs)
  ultimately have ex: "exit halfRequest ?e =
      Inr (transact halfRequest (?e, Exit), [Transfer 2 50, Mint 2 65])"
    by simp
  have z: "outstandingRewards (voterStakes (transact halfRequest (?e, Exit)) 2) = 0"
    by (simp add: halfRequest_eq staker_defs)
  have c: "unat (unstakeRequestTime (voterStakes halfRequest 2)) + unat (unstakeCoolDown halfRequest) = 1013"
    by (simp add: halfRequest_eq emptyVoterStake_def)
  have early: "exit halfRequest (envAt 2 1012 False) = Inl (Revert ''Unstake time not passed'')"
    "transact halfRequest (envAt 2 1012 False, Exit) = halfRequest"
    by (simp_all add: halfRequest_eq staker_defs)
  from x o ex z c early show ?thesis by blast
qed

text \<open>
  C6 as first stated does not hold: for a voter with 15 reward tokens owed and no unstake
  request, \<open>exit()\<close> reverts in the \<open>require\<close> of \<open>executeUnstake()\<close> and withdraws
  nothing, where \<open>withdrawRewards()\<close> alone mints the 15.
\<close>

theorem exit_reverts_counterexample:
  "exit (oneStaker 5 10 100) (envAt 2 1003 False) = Inl (Revert ''Unstake time not passed'') \<and>
   transact (oneStaker 5 10 100) (envAt 2 1003 False, Exit) = oneStaker 5 10 100 \<and>
   outstandingRewards (voterStakes (transact (oneStaker 5 10 100) (envAt 2 1003 False, Exit)) 2) = 0 \<and>
   withdrawRewards (oneStaker 5 10 100) (envAt 2 1003 False) =
     Inr (15, transact (oneStaker 5 10 100) (envAt 2 1003 False, WithdrawRewards), [Mint 2 15])"
  by (simp add: oneStaker_eq staker_defs)

text \<open>
  C7, as amended. A \<open>withdrawRewards()\<close> that returns (its settlement did not abort in
  the checked arithmetic, and the token carried out the mint) has settled first: the amount
  it returns is the voter's outstanding rewards as the view \<open>outstandingRewards(voter)\<close> computes them at
  that time, the stored field is zero afterwards, and the amount is minted to the voter
  (no token call when it is zero; then only settlement and promotion have changed the
  storage). A second \<open>withdrawRewards()\<close> right after it, at the same time, returns
  zero, makes no token call and leaves the storage as it is. The caller of a transaction is
  never the zero address.
\<close>

theorem withdrawRewards_pays_once:
  assumes "withdrawRewards s e = Inr (paid, s1, calls)" and "msg_sender e \<noteq> 0"
  shows "outstandingRewardsOf s e (msg_sender e) = Inr paid \<and>
         outstandingRewards (voterStakes s1 (msg_sender e)) = 0 \<and>
         calls = (if paid = 0 then [] else [Mint (msg_sender e) paid]) \<and>
         withdrawRewards s1 e = Inr (0, s1, []) \<and>
         (if paid = 0 then updateTrackers s e (msg_sender e) = Inr s1
          else tokenAccepts e (Mint (msg_sender e) paid))"
proof -
  from assms(1) obtain st where t: "updateTrackers s e (msg_sender e) = Inr st"
    and paid: "paid = outstandingRewards (voterStakes st (msg_sender e))"
    and rest: "if paid > 0 then
           tokenAccepts e (Mint (msg_sender e) paid) \<and>
           s1 = st\<lparr>voterStakes := (voterStakes st)
                    (msg_sender e := (voterStakes st (msg_sender e))\<lparr>outstandingRewards := 0\<rparr>)\<rparr> \<and>
           calls = [Mint (msg_sender e) paid]
         else s1 = st \<and> calls = []"
    by (auto simp: withdrawRewards_eq_Inr)
  from t obtain s0 where r: "updateReward s e (msg_sender e) = Inr s0"
    and a: "updateActiveStake s0 e (msg_sender e) = Inr st"
    by (auto simp: updateTrackers_def bindR_eq_Inr)
  have "outstandingRewards (voterStakes st (msg_sender e)) =
        outstandingRewards (voterStakes s0 (msg_sender e))"
    using a by (auto simp: updateActiveStake_def bindR_eq_Inr split: if_splits)
  with updateReward_settles(1) [OF r assms(2)] paid
  have view: "outstandingRewardsOf s e (msg_sender e) = Inr paid" by simp
  have zero: "outstandingRewards (voterStakes s1 (msg_sender e)) = 0"
    using rest paid by (auto simp: word_greater_zero_iff split: if_splits)
  have calls: "calls = (if paid = 0 then [] else [Mint (msg_sender e) paid])"
    using rest by (auto simp: word_greater_zero_iff split: if_splits)
  have "settled st e (msg_sender e)" by (rule updateTrackers_settled [OF t])
  then have "settled s1 e (msg_sender e)"
    using rest by (auto simp: settled_def split: if_splits)
  then have "updateTrackers s1 e (msg_sender e) = Inr s1" by (rule settled_updateTrackers)
  with zero have again: "withdrawRewards s1 e = Inr (0, s1, [])"
    by (simp add: withdrawRewards_eq_Inr)
  have last: "if paid = 0 then updateTrackers s e (msg_sender e) = Inr s1
          else tokenAccepts e (Mint (msg_sender e) paid)"
    using rest t by (auto simp: word_greater_zero_iff split: if_splits)
  from view zero calls again last show ?thesis by blast
qed

theorem withdrawRewards_witness:
  "withdrawRewards (oneStaker 5 10 100) (envAt 2 1003 False) =
     Inr (15, transact (oneStaker 5 10 100) (envAt 2 1003 False, WithdrawRewards), [Mint 2 15]) \<and>
   msg_sender (envAt 2 1003 False) \<noteq> 0 \<and>
   outstandingRewardsOf (oneStaker 5 10 100) (envAt 2 1003 False) 2 = Inr 15 \<and>
   outstandingRewards (voterStakes (transact (oneStaker 5 10 100) (envAt 2 1003 False, WithdrawRewards)) 2) = 0 \<and>
   withdrawRewards (transact (oneStaker 5 10 100) (envAt 2 1003 False, WithdrawRewards)) (envAt 2 1003 False) =
     Inr (0, transact (oneStaker 5 10 100) (envAt 2 1003 False, WithdrawRewards), [])"
proof -
  let ?e = "envAt 2 1003 False"
  let ?s1 = "transact (oneStaker 5 10 100) (?e, WithdrawRewards)"
  have m: "msg_sender ?e = 2" by (simp add: envAt_def)
  have w: "withdrawRewards (oneStaker 5 10 100) ?e = Inr (15, ?s1, [Mint 2 15])"
    by (simp add: oneStaker_eq staker_defs)
  have n: "msg_sender ?e \<noteq> 0" by (simp add: envAt_def)
  from withdrawRewards_pays_once [OF w n] w n show ?thesis
    unfolding m by simp
qed

text \<open>
  C7 as first stated does not hold in every reachable storage: with an emission rate of
  \<open>2 ^ 200\<close>, one second after the only voter staked 100, the view of the voter's
  outstanding rewards and \<open>withdrawRewards()\<close> both abort in the checked multiplication
  \<open>elapsed * emissionRate * 1e18\<close>; nothing is settled, returned or paid, and the storage
  stays as it was.
\<close>

theorem withdrawRewards_overflow_counterexample:
  "oneStaker (2 ^ 200) 0 100 =
     run (constructor 1 (2 ^ 200) 0) [(envAt 2 1000 False, Stake 100)] \<and>
   msg_sender (envAt 2 1001 False) = 2 \<and>
   activeStake (voterStakes (oneStaker (2 ^ 200) 0 100) 2) = 100 \<and>
   withdrawRewards (oneStaker (2 ^ 200) 0 100) (envAt 2 1001 False) = Inl ArithmeticPanic \<and>
   outstandingRewardsOf (oneStaker (2 ^ 200) 0 100) (envAt 2 1001 False) 2 = Inl ArithmeticPanic \<and>
   transact (oneStaker (2 ^ 200) 0 100) (envAt 2 1001 False, WithdrawRewards) =
     oneStaker (2 ^ 200) 0 100"
  by (simp add: oneStaker_eq staker_defs)

text \<open>
  C8, as amended. Into a ledger with no stake at all (both cumulative counters zero; the accumulator may
  have any value) a voter with no stake and no rewards owed stakes 100 outside the reveal
  phase: the voter's \<open>activeStake\<close> and \<open>cumulativeActiveStake\<close> are then 100. If
  \<open>dt\<close> seconds later, nothing else having been called, the voter's
  \<open>withdrawRewards()\<close> returns, then it returns exactly \<open>emissionRate * dt\<close> (the
  product of the two numbers, not wrapped around and with nothing lost to the divisions by
  the total stake and by \<open>1e18\<close>), mints that amount and leaves \<open>outstandingRewards\<close> at
  0. And it does return whenever \<open>emissionRate * dt * 1e18\<close> and the new accumulator
  \<open>rewardPerTokenStored + emissionRate * dt * 1e16\<close> fit into 256 bits and the token
  carries out the mint.
\<close>

theorem sole_staker_reward:
  assumes empty: "cumulativeActiveStake s = 0" "cumulativePendingStake s = 0"
    and fresh: "activeStake (voterStakes s (msg_sender e1)) = 0"
      "pendingStake (voterStakes s (msg_sender e1)) = 0"
      "outstandingRewards (voterStakes s (msg_sender e1)) = 0"
    and caller: "msg_sender e1 \<noteq> 0" "msg_sender e2 = msg_sender e1"
    and phase: "\<not> inActiveReveal e1"
    and st: "stake s e1 100 = Inr (s1, calls1)"
    and time: "unat (getCurrentTime e2) = unat (getCurrentTime e1) + unat dt"
  shows "activeStake (voterStakes s1 (msg_sender e1)) = 100 \<and>
         cumulativeActiveStake s1 = 100 \<and>
         (\<forall>paid s2 calls2. withdrawRewards s1 e2 = Inr (paid, s2, calls2) \<longrightarrow>
            unat paid = unat (emissionRate s) * unat dt \<and>
            paid = emissionRate s * dt \<and>
            outstandingRewards (voterStakes s2 (msg_sender e1)) = 0 \<and>
            calls2 = (if paid = 0 then [] else [Mint (msg_sender e1) paid])) \<and>
         (unat (emissionRate s) * unat dt * 10 ^ 18 < 2 ^ 256 \<and>
          unat (rewardPerTokenStored s) + unat (emissionRate s) * unat dt * 10 ^ 16 < 2 ^ 256 \<and>
          tokenAccepts e2 (Mint (msg_sender e1) (emissionRate s * dt)) \<longrightarrow>
            (\<exists>s2 calls2. withdrawRewards s1 e2 = Inr (emissionRate s * dt, s2, calls2)))"
proof -
  let ?A = "msg_sender e1"
  note F = stake_into_empty [OF st phase caller(1) empty fresh]
  have time1: "unat (getCurrentTime e2) = unat (lastUpdateTime s1) + unat dt"
    using time by (simp add: F(8))
  have exact: "unat owed = unat (emissionRate s) * unat dt"
    if "outstandingRewardsOf s1 e2 ?A = Inr owed" for owed
    using sole_staker_view [OF F(1,2,5,6,3,4) time1 that] by (simp add: F(9))
  have paid: "unat paid = unat (emissionRate s) * unat dt \<and>
            paid = emissionRate s * dt \<and>
            outstandingRewards (voterStakes s2 ?A) = 0 \<and>
            calls2 = (if paid = 0 then [] else [Mint ?A paid])"
    if w: "withdrawRewards s1 e2 = Inr (paid, s2, calls2)" for paid s2 calls2
  proof -
    from w obtain t where tr: "updateTrackers s1 e2 ?A = Inr t"
      and pd: "paid = outstandingRewards (voterStakes t ?A)"
      and rest: "if paid > 0 then
           s2 = t\<lparr>voterStakes := (voterStakes t)
                    (?A := (voterStakes t ?A)\<lparr>outstandingRewards := 0\<rparr>)\<rparr> \<and>
           calls2 = [Mint ?A paid]
         else s2 = t \<and> calls2 = []"
      by (auto simp: withdrawRewards_eq_Inr caller(2))
    have "outstandingRewardsOf s1 e2 ?A = Inr paid"
      using updateTrackers_outstanding [OF tr caller(1)] pd by simp
    then have u: "unat paid = unat (emissionRate s) * unat dt" by (rule exact)
    then have "paid = emissionRate s * dt" by (rule word_of_unat_product)
    moreover have "outstandingRewards (voterStakes s2 ?A) = 0"
      using rest pd by (auto simp: word_greater_zero_iff split: if_splits)
    moreover have "calls2 = (if paid = 0 then [] else [Mint ?A paid])"
      using rest by (auto simp: word_greater_zero_iff split: if_splits)
    ultimately show ?thesis using u by simp
  qed
  have succeeds: "\<exists>s2 calls2. withdrawRewards s1 e2 = Inr (emissionRate s * dt, s2, calls2)"
    if b: "unat (emissionRate s) * unat dt * 10 ^ 18 < 2 ^ 256 \<and>
          unat (rewardPerTokenStored s) + unat (emissionRate s) * unat dt * 10 ^ 16 < 2 ^ 256 \<and>
          tokenAccepts e2 (Mint ?A (emissionRate s * dt))"
  proof -
    have le: "lastUpdateTime s1 \<le> getCurrentTime e2"
      using time1 by (simp add: word_le_nat_alt)
    have el: "unat (getCurrentTime e2) - unat (lastUpdateTime s1) = unat dt"
      using time1 by simp
    have b1: "unat dt * unat (emissionRate s) * 10 ^ 18 < 2 ^ 256"
      using b by (simp add: mult.commute)
    have b2: "unat (rewardPerTokenStored s) + unat dt * unat (emissionRate s) * 10 ^ 16 < 2 ^ 256"
      using b by (simp add: mult.commute)
    have "\<exists>rpt. rewardPerToken s1 e2 = Inr rpt"
      using le b1 b2
      by (intro rewardPerToken_succeeds)
         (simp_all only: F(3,4,7,9) el scale_quotient, simp_all)
    then obtain rpt where r: "rewardPerToken s1 e2 = Inr rpt" by blast
    have ur: "unat rpt = unat (rewardPerTokenStored s) + unat dt * unat (emissionRate s) * 10 ^ 16"
      using rewardPerToken_unat [OF r]
      by (simp only: F(3,4,7,9) el) (simp add: scale_quotient)
    have ge: "rewardsPaidPerToken (voterStakes s1 ?A) \<le> rpt"
      using rewardPerToken_ge [OF r] by (simp add: F(6))
    have diff: "unat rpt - unat (rewardsPaidPerToken (voterStakes s1 ?A)) =
        unat dt * unat (emissionRate s) * 10 ^ 16"
      using ur by (simp add: F(6,7))
    have "\<exists>owed. outstandingRewardsOf s1 e2 ?A = Inr owed"
      using ge b1
      by (intro outstandingRewardsOf_succeeds [OF _ r])
         (simp_all only: F(1,2,5) diff, simp_all)
    then obtain owed where o: "outstandingRewardsOf s1 e2 ?A = Inr owed" by blast
    from updateTrackers_succeeds [OF o caller(1) F(2)]
    obtain t where tr: "updateTrackers s1 e2 ?A = Inr t" by blast
    have "outstandingRewards (voterStakes t ?A) = owed"
      using updateTrackers_outstanding [OF tr caller(1)] o by simp
    moreover have "owed = emissionRate s * dt"
      by (rule word_of_unat_product [OF exact [OF o]])
    ultimately have ot: "outstandingRewards (voterStakes t ?A) = emissionRate s * dt" by simp
    show ?thesis
      unfolding withdrawRewards_eq_Inr caller(2)
      using tr ot b by (cases "emissionRate s * dt = 0") (auto simp: word_greater_zero_iff)
  qed
  from F(1,3) paid succeeds show ?thesis by blast
qed

theorem sole_staker_reward_witness:
  "cumulativeActiveStake (constructor 1 5 10) = 0 \<and>
   cumulativePendingStake (constructor 1 5 10) = 0 \<and>
   voterStakes (constructor 1 5 10) 2 = emptyVoterStake \<and>
   \<not> inActiveReveal (envAt 2 1000 False) \<and>
   stake (constructor 1 5 10) (envAt 2 1000 False) 100 =
     Inr (oneStaker 5 10 100, [TransferFrom 2 100]) \<and>
   activeStake (voterStakes (oneStaker 5 10 100) 2) = 100 \<and>
   cumulativeActiveStake (oneStaker 5 10 100) = 100 \<and>
   unat (getCurrentTime (envAt 2 1060 False)) = unat (getCurrentTime (envAt 2 1000 False)) + unat (60 :: uint256) \<and>
   withdrawRewards (oneStaker 5 10 100) (envAt 2 1060 False) =
     Inr (5 * 60, transact (oneStaker 5 10 100) (envAt 2 1060 False, WithdrawRewards), [Mint 2 300]) \<and>
   outstandingRewards (voterStakes (transact (oneStaker 5 10 100) (envAt 2 1060 False, WithdrawRewards)) 2) = 0"
proof -
  let ?s = "constructor 1 5 10" and ?e1 = "envAt 2 1000 False" and ?e2 = "envAt 2 1060 False"
  let ?s2 = "transact (oneStaker 5 10 100) (?e2, WithdrawRewards)"
  have m: "msg_sender ?e1 = 2" by (simp add: envAt_def)
  have empty: "cumulativeActiveStake ?s = 0" "cumulativePendingStake ?s = 0"
    by (simp_all add: constructor_def)
  have rec: "voterStakes ?s 2 = emptyVoterStake" by (simp add: constructor_def)
  have fresh: "activeStake (voterStakes ?s (msg_sender ?e1)) = 0"
    "pendingStake (voterStakes ?s (msg_sender ?e1)) = 0"
    "outstandingRewards (voterStakes ?s (msg_sender ?e1)) = 0"
    by (simp_all add: constructor_def emptyVoterStake_def)
  have caller: "msg_sender ?e1 \<noteq> 0" "msg_sender ?e2 = msg_sender ?e1"
    by (simp_all add: envAt_def)
  have phase: "\<not> inActiveReveal ?e1" by (simp add: envAt_def)
  have st: "stake ?s ?e1 100 = Inr (oneStaker 5 10 100, [TransferFrom 2 100])"
    by (simp add: oneStaker_eq staker_defs)
  have time: "unat (getCurrentTime ?e2) = unat (getCurrentTime ?e1) + unat (60 :: uint256)"
    by (simp add: envAt_def)
  have w: "withdrawRewards (oneStaker 5 10 100) ?e2 = Inr (5 * 60, ?s2, [Mint 2 300])"
    by (simp add: oneStaker_eq staker_defs)
  from sole_staker_reward [OF empty fresh caller phase st time] w
  have "activeStake (voterStakes (oneStaker 5 10 100) 2) = 100"
    and "cumulativeActiveStake (oneStaker 5 10 100) = 100"
    and "outstandingRewards (voterStakes ?s2 2) = 0"
    unfolding m by blast+
  with empty rec phase st time w show ?thesis by blast
qed

text \<open>
  C8 as first stated does not hold for every \<open>r\<close> and \<open>dt\<close>: with \<open>r = 2 ^ 200\<close> and
  \<open>dt = 1\<close>, after the stake of 100 into the empty ledger outside the reveal phase, with a
  token that carries out every call, \<open>withdrawRewards()\<close> does not return \<open>r * dt\<close>: it
  aborts in the checked multiplication by \<open>1e18\<close>.
\<close>

theorem sole_staker_overflow_counterexample:
  "cumulativeActiveStake (constructor 1 (2 ^ 200) 0) = 0 \<and>
   cumulativePendingStake (constructor 1 (2 ^ 200) 0) = 0 \<and>
   voterStakes (constructor 1 (2 ^ 200) 0) 2 = emptyVoterStake \<and>
   emissionRate (constructor 1 (2 ^ 200) 0) = 2 ^ 200 \<and>
   \<not> inActiveReveal (envAt 2 1000 False) \<and>
   stake (constructor 1 (2 ^ 200) 0) (envAt 2 1000 False) 100 =
     Inr (oneStaker (2 ^ 200) 0 100, [TransferFrom 2 100]) \<and>
   activeStake (voterStakes (oneStaker (2 ^ 200) 0 100) 2) = 100 \<and>
   cumulativeActiveStake (oneStaker (2 ^ 200) 0 100) = 100 \<and>
   unat (getCurrentTime (envAt 2 1001 False)) =
     unat (getCurrentTime (envAt 2 1000 False)) + unat (1 :: uint256) \<and>
   tokenAccepts (envAt 2 1001 False) (Mint 2 (2 ^ 200 * 1)) \<and>
   withdrawRewards (oneStaker (2 ^ 200) 0 100) (envAt 2 1001 False) = Inl ArithmeticPanic"
  by (simp add: oneStaker_eq staker_defs)

text \<open>
  C9, as amended. A \<open>stake(amount)\<close> that completes during the reveal phase adds the
  whole amount to the caller's \<open>pendingStake\<close> and to \<open>cumulativePendingStake\<close> and
  leaves \<open>activeStake\<close> and \<open>cumulativeActiveStake\<close> as they are. Outside the reveal
  phase, a \<open>stake\<close>, \<open>requestUnstake\<close>, \<open>executeUnstake\<close>, \<open>withdrawRewards\<close> or
  \<open>exit\<close> that completes sets its caller's \<open>pendingStake\<close> to zero, having moved all of
  it to \<open>activeStake\<close> and the same amount from \<open>cumulativePendingStake\<close> to
  \<open>cumulativeActiveStake\<close> (on top of which come the amount the operation itself stakes
  or asks to unstake). No completed call of any kind changes the record of a voter other
  than its caller: promotion is lazy and per voter. The two setters of the owner change no
  voter's record and neither cumulative counter.
\<close>

theorem pending_stake_promoted_lazily:
  "(inActiveReveal e1 \<and> stake s e1 amount = Inr (s1, calls1) \<longrightarrow>
      unat (pendingStake (voterStakes s1 (msg_sender e1))) =
        unat (pendingStake (voterStakes s (msg_sender e1))) + unat amount \<and>
      unat (cumulativePendingStake s1) = unat (cumulativePendingStake s) + unat amount \<and>
      activeStake (voterStakes s1 (msg_sender e1)) = activeStake (voterStakes s (msg_sender e1)) \<and>
      cumulativeActiveStake s1 = cumulativeActiveStake s) \<and>
   (\<not> inActiveReveal e2 \<and> voterOperation op \<and> call t e2 op = Inr (t', calls2) \<longrightarrow>
      pendingStake (voterStakes t' (msg_sender e2)) = 0 \<and>
      unat (activeStake (voterStakes t' (msg_sender e2))) + unstakedBy op =
        unat (activeStake (voterStakes t (msg_sender e2))) +
        unat (pendingStake (voterStakes t (msg_sender e2))) + stakedBy op \<and>
      unat (cumulativeActiveStake t') + unstakedBy op =
        unat (cumulativeActiveStake t) +
        unat (pendingStake (voterStakes t (msg_sender e2))) + stakedBy op \<and>
      unat (cumulativePendingStake t') + unat (pendingStake (voterStakes t (msg_sender e2))) =
        unat (cumulativePendingStake t)) \<and>
   (call t e3 op3 = Inr (t3, calls3) \<longrightarrow>
      (\<forall>u. u \<noteq> msg_sender e3 \<longrightarrow> voterStakes t3 u = voterStakes t u)) \<and>
   (\<not> voterOperation op4 \<and> call t e4 op4 = Inr (t4, calls4) \<longrightarrow>
      voterStakes t4 = voterStakes t \<and>
      cumulativeActiveStake t4 = cumulativeActiveStake t \<and>
      cumulativePendingStake t4 = cumulativePendingStake t)"
proof (intro conjI impI allI)
  assume a: "inActiveReveal e1 \<and> stake s e1 amount = Inr (s1, calls1)"
  then have st: "stake s e1 amount = Inr (s1, calls1)" and rv: "inActiveReveal e1" by simp_all
  show "unat (pendingStake (voterStakes s1 (msg_sender e1))) =
        unat (pendingStake (voterStakes s (msg_sender e1))) + unat amount"
    by (rule stake_in_reveal(1) [OF st rv])
  show "unat (cumulativePendingStake s1) = unat (cumulativePendingStake s) + unat amount"
    by (rule stake_in_reveal(2) [OF st rv])
  show "activeStake (voterStakes s1 (msg_sender e1)) = activeStake (voterStakes s (msg_sender e1))"
    by (rule stake_in_reveal(3) [OF st rv])
  show "cumulativeActiveStake s1 = cumulativeActiveStake s"
    by (rule stake_in_reveal(4) [OF st rv])
next
  assume "\<not> inActiveReveal e2 \<and> voterOperation op \<and> call t e2 op = Inr (t', calls2)"
  then have p: "promotedBy t t' (msg_sender e2) (stakedBy op) (unstakedBy op)"
    by (simp add: call_promotedBy)
  from p show "pendingStake (voterStakes t' (msg_sender e2)) = 0"
    by (simp add: promotedBy_def)
  from p show "unat (activeStake (voterStakes t' (msg_sender e2))) + unstakedBy op =
        unat (activeStake (voterStakes t (msg_sender e2))) +
        unat (pendingStake (voterStakes t (msg_sender e2))) + stakedBy op"
    by (simp add: promotedBy_def)
  from p show "unat (cumulativeActiveStake t') + unstakedBy op =
        unat (cumulativeActiveStake t) +
        unat (pendingStake (voterStakes t (msg_sender e2))) + stakedBy op"
    by (simp add: promotedBy_def)
  from p show "unat (cumulativePendingStake t') + unat (pendingStake (voterStakes t (msg_sender e2))) =
        unat (cumulativePendingStake t)"
    by (simp add: promotedBy_def)
next
  fix u
  assume "call t e3 op3 = Inr (t3, calls3)" and "u \<noteq> msg_sender e3"
  then show "voterStakes t3 u = voterStakes t u" by (rule call_frame)
next
  assume a: "\<not> voterOperation op4 \<and> call t e4 op4 = Inr (t4, calls4)"
  then have n: "\<not> voterOperation op4" and c: "call t e4 op4 = Inr (t4, calls4)" by simp_all
  show "voterStakes t4 = voterStakes t" by (rule setter_no_promotion(1) [OF n c])
  show "cumulativeActiveStake t4 = cumulativeActiveStake t" by (rule setter_no_promotion(2) [OF n c])
  show "cumulativePendingStake t4 = cumulativePendingStake t" by (rule setter_no_promotion(3) [OF n c])
qed

theorem pending_stake_promoted_lazily_witness:
  "inActiveReveal (envAt 2 1000 True) \<and>
   stake (constructor 1 5 10) (envAt 2 1000 True) 100 =
     Inr (transact (constructor 1 5 10) (envAt 2 1000 True, Stake 100), [TransferFrom 2 100]) \<and>
   pendingStake (voterStakes (transact (constructor 1 5 10) (envAt 2 1000 True, Stake 100)) 2) = 100 \<and>
   cumulativePendingStake (transact (constructor 1 5 10) (envAt 2 1000 True, Stake 100)) = 100 \<and>
   pendingStake (voterStakes twoPending 2) = 100 \<and>
   pendingStake (voterStakes twoPending 3) = 70 \<and>
   \<not> inActiveReveal (envAt 2 1010 False) \<and>
   voterOperation WithdrawRewards \<and>
   call twoPending (envAt 2 1010 False) WithdrawRewards =
     Inr (transact twoPending (envAt 2 1010 False, WithdrawRewards), [Mint 2 29]) \<and>
   pendingStake (voterStakes (transact twoPending (envAt 2 1010 False, WithdrawRewards)) 2) = 0 \<and>
   activeStake (voterStakes (transact twoPending (envAt 2 1010 False, WithdrawRewards)) 2) = 100 \<and>
   cumulativeActiveStake (transact twoPending (envAt 2 1010 False, WithdrawRewards)) = 100 \<and>
   cumulativePendingStake (transact twoPending (envAt 2 1010 False, WithdrawRewards)) = 70 \<and>
   voterStakes (transact twoPending (envAt 2 1010 False, WithdrawRewards)) 3 = voterStakes twoPending 3"
proof -
  let ?e1 = "envAt 2 1000 True" and ?e2 = "envAt 2 1010 False"
  let ?s1 = "transact (constructor 1 5 10) (?e1, Stake 100)"
  let ?t' = "transact twoPending (?e2, WithdrawRewards)"
  have m: "msg_sender ?e2 = 2" by (simp add: envAt_def)
  have r1: "inActiveReveal ?e1" and r2: "\<not> inActiveReveal ?e2" by (simp_all add: envAt_def)
  have st: "stake (constructor 1 5 10) ?e1 100 = Inr (?s1, [TransferFrom 2 100])"
    by (simp add: staker_defs)
  have s1: "pendingStake (voterStakes ?s1 2) = 100" "cumulativePendingStake ?s1 = 100"
    by (simp_all add: staker_defs)
  have tp: "pendingStake (voterStakes twoPending 2) = 100" "pendingStake (voterStakes twoPending 3) = 70"
    "activeStake (voterStakes twoPending 2) = 0" "cumulativeActiveStake twoPending = 0"
    "cumulativePendingStake twoPending = 170"
    by (simp_all add: twoPending_eq emptyVoterStake_def)
  have c: "call twoPending ?e2 WithdrawRewards = Inr (?t', [Mint 2 29])"
    by (simp add: twoPending_eq staker_defs)
  have v: "voterOperation WithdrawRewards" by simp
  from pending_stake_promoted_lazily
    [of ?e1 "constructor 1 5 10" 100 ?s1 "[TransferFrom 2 100]" ?e2 WithdrawRewards
        twoPending ?t' "[Mint 2 29]" ?e2 WithdrawRewards ?t' "[Mint 2 29]"]
    r2 v c
  have promoted: "pendingStake (voterStakes ?t' 2) = 0"
    and others: "voterStakes ?t' 3 = voterStakes twoPending 3"
    unfolding m by simp_all
  have moved: "activeStake (voterStakes ?t' 2) = 100"
    "cumulativeActiveStake ?t' = 100" "cumulativePendingStake ?t' = 70"
    by (simp_all add: twoPending_eq staker_defs)
  from promoted others moved
  show ?thesis using r1 r2 st s1 tp v c by blast
qed

text \<open>
  C9 as first stated does not hold for every operation: \<open>setEmissionRate\<close> and
  \<open>setUnstakeCoolDown\<close> do not run \<open>_updateActiveStake\<close>. When the voter who staked
  100 during the reveal phase is the owner and next calls \<open>setEmissionRate(7)\<close> after
  the phase has ended, the call completes and the 100 are still pending.
\<close>

theorem owner_setter_no_promotion_counterexample:
  "stake (constructor 2 5 10) (envAt 2 1000 True) 100 = Inr (ownerPending, [TransferFrom 2 100]) \<and>
   pendingStake (voterStakes ownerPending 2) = 100 \<and>
   call ownerPending (envAt 2 1001 False) (SetEmissionRate 7) =
     Inr (transact ownerPending (envAt 2 1001 False, SetEmissionRate 7), []) \<and>
   pendingStake (voterStakes (transact ownerPending (envAt 2 1001 False, SetEmissionRate 7)) 2) = 100 \<and>
   activeStake (voterStakes (transact ownerPending (envAt 2 1001 False, SetEmissionRate 7)) 2) = 0 \<and>
   cumulativePendingStake (transact ownerPending (envAt 2 1001 False, SetEmissionRate 7)) = 100 \<and>
   cumulativeActiveStake (transact ownerPending (envAt 2 1001 False, SetEmissionRate 7)) = 0"
  by (simp add: ownerPending_eq staker_defs)

text \<open>
  C10, as amended. Outside the reveal phase, when the settlement and promotion run first
  complete (no checked-arithmetic panic) and the voter has no pending unstake,
  \<open>requestUnstake(0)\<close> succeeds: it stamps \<open>unstakeRequestTime\<close> with the current time
  and leaves \<open>pendingUnstake\<close> at 0 and the stakes as settlement left them. The stamp does
  not block a later request: a \<open>requestUnstake(amount)\<close> by the same voter, outside the
  reveal phase, whose own settlement completes, for at most the active stake, succeeds. And
  once the cooldown has elapsed, an \<open>executeUnstake()\<close> on the zero request whose
  settlement completes succeeds with no token call and leaves \<open>unstakeRequestTime\<close> at
  the (nonzero) time of the request.
\<close>

theorem zero_amount_unstake_request:
  assumes "\<not> inActiveReveal e"
    and "updateTrackers s e (msg_sender e) = Inr s1"
    and "pendingUnstake (voterStakes s (msg_sender e)) = 0"
  shows "\<exists>s'. requestUnstake s e 0 = Inr (s', []) \<and>
           unstakeRequestTime (voterStakes s' (msg_sender e)) = getCurrentTime e \<and>
           pendingUnstake (voterStakes s' (msg_sender e)) = 0 \<and>
           activeStake (voterStakes s' (msg_sender e)) = activeStake (voterStakes s1 (msg_sender e)) \<and>
           cumulativeActiveStake s' = cumulativeActiveStake s1 \<and>
           unstakeCoolDown s' = unstakeCoolDown s \<and>
           (\<forall>e2 amount s2.
              msg_sender e2 = msg_sender e \<and> \<not> inActiveReveal e2 \<and> ledgerBalanced s \<and>
              updateTrackers s' e2 (msg_sender e) = Inr s2 \<and>
              amount \<le> activeStake (voterStakes s2 (msg_sender e)) \<longrightarrow>
                (\<exists>s3. requestUnstake s' e2 amount = Inr (s3, []) \<and>
                      pendingUnstake (voterStakes s3 (msg_sender e)) = amount \<and>
                      unstakeRequestTime (voterStakes s3 (msg_sender e)) = getCurrentTime e2)) \<and>
           (\<forall>e3 s3.
              msg_sender e3 = msg_sender e \<and> getCurrentTime e \<noteq> 0 \<and>
              unat (getCurrentTime e) + unat (unstakeCoolDown s) \<le> unat (getCurrentTime e3) \<and>
              updateTrackers s' e3 (msg_sender e) = Inr s3 \<longrightarrow>
                executeUnstake s' e3 = Inr (s3, []) \<and>
                unstakeRequestTime (voterStakes s3 (msg_sender e)) = getCurrentTime e \<and>
                pendingUnstake (voterStakes s3 (msg_sender e)) = 0)"
proof -
  define s' where "s' = s1\<lparr>cumulativeActiveStake := cumulativeActiveStake s1 - 0,
                voterStakes := (voterStakes s1)
                  (msg_sender e := (voterStakes s1 (msg_sender e))
                     \<lparr>activeStake := activeStake (voterStakes s1 (msg_sender e)) - 0,
                      pendingUnstake := 0,
                      unstakeRequestTime := getCurrentTime e\<rparr>)\<rparr>"
  note v = updateTrackers_voters [OF assms(2)] and g = updateTrackers_globals [OF assms(2)]
  have req: "requestUnstake s e 0 = Inr (s', [])"
    unfolding requestUnstake_eq_Inr s'_def
    using assms by (intro conjI exI [of _ s1]) (simp_all add: v(1))
  have next_request: "\<exists>s3. requestUnstake s' e2 amount = Inr (s3, []) \<and>
                      pendingUnstake (voterStakes s3 (msg_sender e)) = amount \<and>
                      unstakeRequestTime (voterStakes s3 (msg_sender e)) = getCurrentTime e2"
    if h: "msg_sender e2 = msg_sender e \<and> \<not> inActiveReveal e2 \<and> ledgerBalanced s \<and>
              updateTrackers s' e2 (msg_sender e) = Inr s2 \<and>
              amount \<le> activeStake (voterStakes s2 (msg_sender e))" for e2 amount s2
  proof -
    from h have t2: "updateTrackers s' e2 (msg_sender e2) = Inr s2" by simp
    have "ledgerBalanced s'" using h req by (blast intro: requestUnstake_balanced)
    then have "ledgerBalanced s2" by (rule updateTrackers_balanced [OF t2])
    then have "activeStake (voterStakes s2 (msg_sender e)) \<le> cumulativeActiveStake s2"
      by (rule active_le_cumulative)
    with h have le: "amount \<le> cumulativeActiveStake s2" by (blast intro: order_trans)
    have pu: "pendingUnstake (voterStakes s2 (msg_sender e2)) = 0"
      using h by (simp add: updateTrackers_voters(1) [OF t2] s'_def)
    show ?thesis
      unfolding requestUnstake_eq_Inr using h t2 le pu by auto
  qed
  have execute: "executeUnstake s' e3 = Inr (s3, []) \<and>
                unstakeRequestTime (voterStakes s3 (msg_sender e)) = getCurrentTime e \<and>
                pendingUnstake (voterStakes s3 (msg_sender e)) = 0"
    if h: "msg_sender e3 = msg_sender e \<and> getCurrentTime e \<noteq> 0 \<and>
              unat (getCurrentTime e) + unat (unstakeCoolDown s) \<le> unat (getCurrentTime e3) \<and>
              updateTrackers s' e3 (msg_sender e) = Inr s3" for e3 s3
  proof -
    from h have t3: "updateTrackers s' e3 (msg_sender e3) = Inr s3" by simp
    note v3 = updateTrackers_voters [OF t3] and g3 = updateTrackers_globals [OF t3]
    have a: "unstakeRequestTime (voterStakes s3 (msg_sender e3)) = getCurrentTime e"
      and b: "pendingUnstake (voterStakes s3 (msg_sender e3)) = 0"
      and c: "unstakeCoolDown s3 = unstakeCoolDown s"
      using h by (simp_all add: v3 g3 s'_def g)
    have "executeUnstake s' e3 = Inr (s3, [])"
      unfolding executeUnstake_eq_Inr using h t3 a b c by auto
    with a b h show ?thesis by simp
  qed
  have fields: "unstakeRequestTime (voterStakes s' (msg_sender e)) = getCurrentTime e"
    "pendingUnstake (voterStakes s' (msg_sender e)) = 0"
    "activeStake (voterStakes s' (msg_sender e)) = activeStake (voterStakes s1 (msg_sender e))"
    "cumulativeActiveStake s' = cumulativeActiveStake s1"
    "unstakeCoolDown s' = unstakeCoolDown s"
    by (simp_all add: s'_def g)
  from req fields next_request execute show ?thesis by blast
qed

theorem zero_amount_unstake_request_witness:
  "\<not> inActiveReveal (envAt 2 1003 False) \<and>
   pendingUnstake (voterStakes (oneStaker 5 10 100) 2) = 0 \<and>
   requestUnstake (oneStaker 5 10 100) (envAt 2 1003 False) 0 = Inr (zeroRequest, []) \<and>
   unstakeRequestTime (voterStakes zeroRequest 2) = 1003 \<and>
   pendingUnstake (voterStakes zeroRequest 2) = 0 \<and>
   activeStake (voterStakes zeroRequest 2) = 100 \<and>
   requestUnstake zeroRequest (envAt 2 1004 False) 30 =
     Inr (transact zeroRequest (envAt 2 1004 False, RequestUnstake 30), []) \<and>
   pendingUnstake (voterStakes (transact zeroRequest (envAt 2 1004 False, RequestUnstake 30)) 2) = 30 \<and>
   executeUnstake zeroRequest (envAt 2 1013 False) =
     Inr (transact zeroRequest (envAt 2 1013 False, ExecuteUnstake), []) \<and>
   unstakeRequestTime (voterStakes (transact zeroRequest (envAt 2 1013 False, ExecuteUnstake)) 2) = 1003"
proof -
  let ?e = "envAt 2 1003 False"
  have m: "msg_sender ?e = 2" "getCurrentTime ?e = 1003" by (simp_all add: envAt_def)
  have r: "\<not> inActiveReveal ?e" by (simp add: envAt_def)
  obtain s1 where t: "updateTrackers (oneStaker 5 10 100) ?e (msg_sender ?e) = Inr s1"
    by (simp add: oneStaker_eq staker_defs)
  have p: "pendingUnstake (voterStakes (oneStaker 5 10 100) (msg_sender ?e)) = 0"
    by (simp add: oneStaker_eq envAt_def emptyVoterStake_def)
  have z: "requestUnstake (oneStaker 5 10 100) ?e 0 = Inr (zeroRequest, [])"
    by (simp add: zeroRequest_eq oneStaker_eq staker_defs)
  from zero_amount_unstake_request [OF r t p] z
  have stamped: "unstakeRequestTime (voterStakes zeroRequest 2) = 1003"
    "pendingUnstake (voterStakes zeroRequest 2) = 0"
    unfolding m by auto
  have rest: "activeStake (voterStakes zeroRequest 2) = 100"
    "requestUnstake zeroRequest (envAt 2 1004 False) 30 =
       Inr (transact zeroRequest (envAt 2 1004 False, RequestUnstake 30), [])"
    "pendingUnstake (voterStakes (transact zeroRequest (envAt 2 1004 False, RequestUnstake 30)) 2) = 30"
    "executeUnstake zeroRequest (envAt 2 1013 False) =
       Inr (transact zeroRequest (envAt 2 1013 False, ExecuteUnstake), [])"
    "unstakeRequestTime (voterStakes (transact zeroRequest (envAt 2 1013 False, ExecuteUnstake)) 2) = 1003"
    by (simp_all add: zeroRequest_eq staker_defs)
  from r p z stamped rest show ?thesis unfolding m by blast
qed

text \<open>
  C10 as first stated does not hold in every storage: with an emission rate of \<open>2 ^ 200\<close>,
  one second after the only voter staked 100, their \<open>requestUnstake(0)\<close> outside the
  reveal phase, with no pending unstake, does not succeed: the settlement run first aborts in
  the checked multiplication \<open>elapsed * emissionRate * 1e18\<close>, and the storage stays as it
  was.
\<close>

theorem zero_amount_overflow_counterexample:
  "\<not> inActiveReveal (envAt 2 1001 False) \<and>
   pendingUnstake (voterStakes (oneStaker (2 ^ 200) 0 100) 2) = 0 \<and>
   activeStake (voterStakes (oneStaker (2 ^ 200) 0 100) 2) = 100 \<and>
   updateTrackers (oneStaker (2 ^ 200) 0 100) (envAt 2 1001 False) 2 = Inl ArithmeticPanic \<and>
   requestUnstake (oneStaker (2 ^ 200) 0 100) (envAt 2 1001 False) 0 = Inl ArithmeticPanic \<and>
   transact (oneStaker (2 ^ 200) 0 100) (envAt 2 1001 False, RequestUnstake 0) =
     oneStaker (2 ^ 200) 0 100"
  by (simp add: oneStaker_eq staker_defs)

end
